theory Spec2Isabelle
  imports Main "HOL-Library.Signed_Division" "HOL-Library.AList"
begin

section \<open>Run-time failures\<close>

text \<open>
  The Go run time panics on an index or a slice bound out of range, on an integer
  division by zero and on \<^verbatim>\<open>make\<close> with a length out of range. Each of them is a value
  of the model. Go's \<^verbatim>\<open>int\<close> is modelled by \<^typ>\<open>int\<close>: the indices and counters
  of this program stay between 0 and a slice length, so they never wrap.
\<close>

datatype panic = IndexOutOfRange | SliceBoundsOutOfRange | DivideByZero | MakeSliceLenOutOfRange

section \<open>Ring buffer (package runner, RingBuffer)\<close>

record 'a RingBuffer =
  data :: "'a list"
  size_rb :: int
  head :: int
  count :: int

text \<open>
  \<^verbatim>\<open>make([]T, n)\<close> fills the slice with the zero value of \<^verbatim>\<open>T\<close>, passed here as
  \<open>zero\<close>. It panics (\<^verbatim>\<open>makeslice: len out of range\<close>) when \<open>n\<close> is negative and when
  a slice of \<open>n\<close> elements is larger than the run time allocates on the platform;
  \<open>maxlen\<close> is the largest length it accepts for the element type, a parameter of the
  model. Running out of memory below that bound is a fatal error of the run time and
  outside the model.
\<close>

definition make_slice :: "nat \<Rightarrow> 'a \<Rightarrow> int \<Rightarrow> panic + 'a list" where
  "make_slice maxlen zero n =
     (if n < 0 \<or> int maxlen < n then Inl MakeSliceLenOutOfRange
      else Inr (replicate (nat n) zero))"

definition NewRingBuffer :: "nat \<Rightarrow> 'a \<Rightarrow> int \<Rightarrow> panic + 'a RingBuffer" where
  "NewRingBuffer maxlen zero sz =
     (case make_slice maxlen zero sz of
        Inl pn \<Rightarrow> Inl pn
      | Inr d \<Rightarrow> Inr \<lparr>data = d, size_rb = sz, head = 0, count = 0\<rparr>)"

text \<open>
  \<^verbatim>\<open>rb.data[rb.head] = item\<close> is bounds checked, \<^verbatim>\<open>%\<close> panics on a zero divisor
  and otherwise truncates towards zero (\<open>smod\<close>).
\<close>

definition Push :: "'a \<Rightarrow> 'a RingBuffer \<Rightarrow> panic + 'a RingBuffer" where
  "Push item rb =
     (if head rb < 0 \<or> int (length (data rb)) \<le> head rb then Inl IndexOutOfRange
      else if size_rb rb = 0 then Inl DivideByZero
      else
        let rb1 = rb\<lparr>data := (data rb)[nat (head rb) := item],
                     head := (head rb + 1) smod size_rb rb\<rparr>
        in Inr (if count rb1 < size_rb rb1 then rb1\<lparr>count := count rb1 + 1\<rparr> else rb1))"

text \<open>
  The buffer as a call of \<^verbatim>\<open>Push\<close> leaves it, also when the call panics: the index
  panic comes before any assignment, the division panic after the assignment to the
  slot.
\<close>

definition Push_after :: "'a \<Rightarrow> 'a RingBuffer \<Rightarrow> 'a RingBuffer" where
  "Push_after item rb =
     (if head rb < 0 \<or> int (length (data rb)) \<le> head rb then rb
      else if size_rb rb = 0 then rb\<lparr>data := (data rb)[nat (head rb) := item]\<rparr>
      else
        let rb1 = rb\<lparr>data := (data rb)[nat (head rb) := item],
                     head := (head rb + 1) smod size_rb rb\<rparr>
        in if count rb1 < size_rb rb1 then rb1\<lparr>count := count rb1 + 1\<rparr> else rb1)"

text \<open>
  The built-in \<^verbatim>\<open>copy(dst, src)\<close> overwrites the first \<open>min (len dst) (len src)\<close>
  elements of \<open>dst\<close> and returns that number.
\<close>

definition copy_go :: "'a list \<Rightarrow> 'a list \<Rightarrow> 'a list" where
  "copy_go dst src = take (length dst) src @ drop (length src) dst"

definition ToSlice :: "nat \<Rightarrow> 'a \<Rightarrow> 'a RingBuffer \<Rightarrow> panic + 'a list" where
  "ToSlice maxlen zero rb =
     (if count rb = 0 then Inr []
      else
        (case make_slice maxlen zero (count rb) of
           Inl pn \<Rightarrow> Inl pn
         | Inr result \<Rightarrow>
             if count rb < size_rb rb then
               (if int (length (data rb)) < count rb then Inl SliceBoundsOutOfRange
                else Inr (copy_go result (take (nat (count rb)) (data rb))))
             else
               (if head rb < 0 \<or> int (length (data rb)) < head rb then Inl SliceBoundsOutOfRange
                else
                  let src1 = drop (nat (head rb)) (data rb);
                      n = min (length result) (length src1);
                      result1 = copy_go result src1
                  in Inr (take n result1 @
                          copy_go (drop n result1) (take (nat (head rb)) (data rb))))))"

definition Len :: "'a RingBuffer \<Rightarrow> int" where
  "Len rb = count rb"

text \<open>A run of pushes, stopping at the first panic.\<close>

fun PushAll :: "'a list \<Rightarrow> 'a RingBuffer \<Rightarrow> panic + 'a RingBuffer" where
  "PushAll [] rb = Inr rb"
| "PushAll (x # xs) rb = (case Push x rb of Inl e \<Rightarrow> Inl e | Inr rb' \<Rightarrow> PushAll xs rb')"

text \<open>
  \<open>rb_holds c rb ys\<close>: the buffer \<open>rb\<close> of capacity \<open>c\<close> stores the items \<open>ys\<close>,
  oldest first.
\<close>

definition rb_holds :: "nat \<Rightarrow> 'a RingBuffer \<Rightarrow> 'a list \<Rightarrow> bool" where
  "rb_holds c rb ys \<longleftrightarrow>
     size_rb rb = int c \<and> length (data rb) = c \<and> count rb = int (length ys) \<and>
     length ys \<le> c \<and> 0 \<le> head rb \<and> head rb < int c \<and>
     (if length ys < c then nat (head rb) = length ys \<and> take (length ys) (data rb) = ys
      else drop (nat (head rb)) (data rb) @ take (nat (head rb)) (data rb) = ys)"

text \<open>The last \<open>c\<close> items of a list (all of them when there are fewer).\<close>

definition last_n :: "nat \<Rightarrow> 'a list \<Rightarrow> 'a list" where
  "last_n c xs = drop (length xs - c) xs"

section \<open>Events, results and jobs (package runner, Process)\<close>

text \<open>
  Times are instants of the clock in nanoseconds, durations are nanoseconds; every
  \<^verbatim>\<open>time.Now()\<close> of the source is a parameter \<open>now\<close> of the model, and the clock
  reads inside one call are taken at one instant.
\<close>

type_synonym time = int

definition Minute :: int where
  "Minute = 60 * 1000000000"

record Result =
  ExitCode :: int
  Output :: "string option"
  Error :: string

text \<open>
  A payload (\<^verbatim>\<open>json.RawMessage\<close>) is \<^verbatim>\<open>nil\<close>, the bytes of an output line, or the
  bytes that \<^verbatim>\<open>json.Marshal\<close> makes of the error map and of the done map; the core
  never looks inside a payload, so the two marshalled maps are kept by their contents.
\<close>

datatype payload =
    NilData
  | Raw string
  | ErrorJSON string
  | DoneJSON string string "Result option"

record Event =
  Type :: string
  Data :: payload
  Timestamp :: time

definition zero_Event :: Event where
  "zero_Event = \<lparr>Type = [], Data = NilData, Timestamp = 0\<rparr>"

definition StatusPending :: string where "StatusPending = ''pending''"
definition StatusRunning :: string where "StatusRunning = ''running''"
definition StatusCompleted :: string where "StatusCompleted = ''completed''"
definition StatusFailed :: string where "StatusFailed = ''failed''"
definition StatusStopped :: string where "StatusStopped = ''stopped''"

text \<open>
  A subscriber channel: the events queued in it and its capacity. A channel is closed
  only in the step that deletes it from the subscriber map (\<^verbatim>\<open>Unsubscribe\<close>,
  \<^verbatim>\<open>Close\<close>), so every channel of the map is open.
\<close>

record chan =
  buf :: "Event list"
  cap :: nat

text \<open>
  \<open>cmd\<close>: \<^verbatim>\<open>nil\<close>, or the command with its \<^verbatim>\<open>Process\<close> field (\<^verbatim>\<open>nil\<close> before the
  start, then whether a kill has been sent). \<open>cancel\<close>: \<^verbatim>\<open>nil\<close>, or the cancel
  function of the run's context, with whether that context is cancelled.
  \<open>done_ch\<close>: whether the \<^verbatim>\<open>done\<close> channel is closed.
\<close>

type_synonym exec_Cmd = "bool option"

record Process =
  ID :: string
  Connector :: string
  Prompt :: string
  WorkDir :: string
  Status :: string
  StartedAt :: time
  CompletedAt :: "time option"
  cmd :: "exec_Cmd option"
  events :: "Event RingBuffer"
  result :: "Result option"
  subscribers :: "(string \<times> chan) list"
  cancel :: "bool option"
  done_ch :: bool
  resultData :: payload
  resultExpiry :: "time option"

definition NewProcess ::
  "nat \<Rightarrow> string \<Rightarrow> string \<Rightarrow> string \<Rightarrow> string \<Rightarrow> int \<Rightarrow> time \<Rightarrow> panic + Process" where
  "NewProcess maxlen pid connector prompt workDir bufferSize now =
     (case NewRingBuffer maxlen zero_Event bufferSize of
        Inl pn \<Rightarrow> Inl pn
      | Inr rb \<Rightarrow>
          Inr \<lparr>ID = pid, Connector = connector, Prompt = prompt, WorkDir = workDir,
               Status = StatusPending, StartedAt = now, CompletedAt = None, cmd = None,
               events = rb, result = None, subscribers = [], cancel = None,
               done_ch = False, resultData = NilData, resultExpiry = None\<rparr>)"

text \<open>
  The non-blocking send \<^verbatim>\<open>select { case ch <- event: default: }\<close>: the event is
  queued when the channel has room and dropped otherwise.
\<close>

definition send_nb :: "Event \<Rightarrow> chan \<Rightarrow> chan" where
  "send_nb event ch = (if length (buf ch) < cap ch then ch\<lparr>buf := buf ch @ [event]\<rparr> else ch)"

fun notify :: "Event \<Rightarrow> (string \<times> chan) list \<Rightarrow> (string \<times> chan) list" where
  "notify event [] = []"
| "notify event ((sid, ch) # rest) = (sid, send_nb event ch) # notify event rest"

definition AddEvent :: "Event \<Rightarrow> Process \<Rightarrow> panic + Process" where
  "AddEvent event p =
     (case Push event (events p) of
        Inl pn \<Rightarrow> Inl pn
      | Inr rb \<Rightarrow> Inr (p\<lparr>events := rb, subscribers := notify event (subscribers p)\<rparr>))"

definition Subscribe :: "string \<Rightarrow> Process \<Rightarrow> Process" where
  "Subscribe subscriberID p =
     p\<lparr>subscribers := AList.update subscriberID \<lparr>buf = [], cap = 100\<rparr> (subscribers p)\<rparr>"

definition Unsubscribe :: "string \<Rightarrow> Process \<Rightarrow> Process" where
  "Unsubscribe subscriberID p =
     (case map_of (subscribers p) subscriberID of
        None \<Rightarrow> p
      | Some ch \<Rightarrow> p\<lparr>subscribers := AList.delete subscriberID (subscribers p)\<rparr>)"

definition GetEvents :: "nat \<Rightarrow> Process \<Rightarrow> panic + Event list" where
  "GetEvents maxlen p = ToSlice maxlen zero_Event (events p)"

definition SetStatus :: "string \<Rightarrow> Process \<Rightarrow> Process" where
  "SetStatus status p = p\<lparr>Status := status\<rparr>"

definition SetResult :: "Result option \<Rightarrow> Process \<Rightarrow> Process" where
  "SetResult r p = p\<lparr>result := r\<rparr>"

definition GetResult :: "Process \<Rightarrow> Result option" where
  "GetResult p = result p"

definition Stop :: "time \<Rightarrow> Process \<Rightarrow> Process" where
  "Stop now p =
     (let p1 = (case cancel p of None \<Rightarrow> p | Some c \<Rightarrow> p\<lparr>cancel := Some True\<rparr>);
          p2 = (case cmd p1 of Some (Some k) \<Rightarrow> p1\<lparr>cmd := Some (Some True)\<rparr> | _ \<Rightarrow> p1);
          p3 = p2\<lparr>done_ch := True\<rparr>
      in if Status p3 = StatusPending \<or> Status p3 = StatusRunning
         then p3\<lparr>Status := StatusStopped, CompletedAt := Some now\<rparr>
         else p3)"

definition Close :: "time \<Rightarrow> Process \<Rightarrow> Process" where
  "Close now p =
     (let p1 = p\<lparr>done_ch := True, subscribers := []\<rparr>
      in if CompletedAt p1 = None then p1\<lparr>CompletedAt := Some now\<rparr> else p1)"

definition SetResultData :: "payload \<Rightarrow> time \<Rightarrow> Process \<Rightarrow> Process" where
  "SetResultData d now p = p\<lparr>resultData := d, resultExpiry := Some (now + 10 * Minute)\<rparr>"

definition GetResultData :: "time \<Rightarrow> Process \<Rightarrow> payload" where
  "GetResultData now p =
     (case resultExpiry p of
        None \<Rightarrow> NilData
      | Some expiry \<Rightarrow> if expiry < now then NilData else resultData p)"

definition HasValidResultData :: "time \<Rightarrow> Process \<Rightarrow> bool" where
  "HasValidResultData now p \<longleftrightarrow>
     resultData p \<noteq> NilData \<and>
     (case resultExpiry p of None \<Rightarrow> False | Some expiry \<Rightarrow> now < expiry)"

section \<open>The job table (package runner, Manager)\<close>

text \<open>
  The two error variables of the package, and \<^verbatim>\<open>errors.New\<close> with its message. Of the
  configuration the section \<^verbatim>\<open>Process\<close> is kept.
\<close>

datatype error = ErrProcessNotFound | ErrMaxConcurrent | errors_New string

record ProcessConfig =
  DefaultTimeout :: int
  MaxConcurrent :: int
  CleanupDelay :: int
  BufferSize :: int

text \<open>
  The table is a Go map from id to a pointer to the job; here an association list with
  the job itself, read with \<open>map_of\<close>. What a call does to a job through its pointer
  is done to the entry of the table.
\<close>

record Manager =
  processes :: "(string \<times> Process) list"
  config :: ProcessConfig

definition NewManager :: "ProcessConfig \<Rightarrow> Manager" where
  "NewManager cfg = \<lparr>processes = [], config = cfg\<rparr>"

definition is_active :: "Process \<Rightarrow> bool" where
  "is_active p \<longleftrightarrow> Status p = StatusPending \<or> Status p = StatusRunning"

definition Count :: "Manager \<Rightarrow> int" where
  "Count m = int (length (filter (\<lambda>(pid, p). is_active p) (processes m)))"

text \<open>
  What a call of \<^verbatim>\<open>Create\<close> comes to: the job, an error, or a panic of
  \<^verbatim>\<open>NewProcess\<close> (the deferred unlock still runs, and the table is as before).
  The fresh UUID is the parameter \<open>pid\<close>, \<open>maxlen\<close> is the bound of \<open>make_slice\<close>.
\<close>

datatype 'a outcome = Returns 'a | Fails error | Panics panic

definition Create ::
  "nat \<Rightarrow> string \<Rightarrow> string \<Rightarrow> string \<Rightarrow> string \<Rightarrow> time \<Rightarrow> Manager \<Rightarrow>
     Manager \<times> Process outcome" where
  "Create maxlen pid connector prompt workDir now m =
     (if MaxConcurrent (config m) \<le> Count m then (m, Fails ErrMaxConcurrent)
      else
        (case NewProcess maxlen pid connector prompt workDir (BufferSize (config m)) now of
           Inl pn \<Rightarrow> (m, Panics pn)
         | Inr p \<Rightarrow> (m\<lparr>processes := AList.update pid p (processes m)\<rparr>, Returns p)))"

text \<open>A run of \<^verbatim>\<open>Create\<close> calls, each with its id, connector, prompt, directory and time.\<close>

fun CreateAll ::
  "nat \<Rightarrow> (string \<times> string \<times> string \<times> string \<times> time) list \<Rightarrow> Manager \<Rightarrow> Manager" where
  "CreateAll maxlen [] m = m"
| "CreateAll maxlen ((pid, connector, prompt, workDir, now) # calls) m =
     CreateAll maxlen calls (fst (Create maxlen pid connector prompt workDir now m))"

definition Get :: "string \<Rightarrow> Manager \<Rightarrow> error + Process" where
  "Get pid m = (case map_of (processes m) pid of None \<Rightarrow> Inl ErrProcessNotFound | Some p \<Rightarrow> Inr p)"

definition Manager_Stop :: "string \<Rightarrow> time \<Rightarrow> Manager \<Rightarrow> Manager \<times> error option" where
  "Manager_Stop pid now m =
     (case map_of (processes m) pid of
        None \<Rightarrow> (m, Some ErrProcessNotFound)
      | Some p \<Rightarrow> (m\<lparr>processes := AList.update pid (Stop now p) (processes m)\<rparr>, None))"

definition Remove :: "string \<Rightarrow> Manager \<Rightarrow> Manager \<times> error option" where
  "Remove pid m =
     (case map_of (processes m) pid of
        None \<Rightarrow> (m, Some ErrProcessNotFound)
      | Some p \<Rightarrow>
          if Status p \<noteq> StatusCompleted \<and> Status p \<noteq> StatusFailed \<and> Status p \<noteq> StatusStopped
          then (m, Some (errors_New ''cannot remove active process''))
          else (m\<lparr>processes := AList.delete pid (processes m)\<rparr>, None))"

text \<open>
  A \<^verbatim>\<open>time.Duration\<close> is a 64-bit count of nanoseconds, and \<^verbatim>\<open>t.Sub(u)\<close> is the
  difference of the two instants cut to that range.
\<close>

definition minDuration :: int where
  "minDuration = - (2 ^ 63)"

definition maxDuration :: int where
  "maxDuration = 2 ^ 63 - 1"

definition Time_Sub :: "time \<Rightarrow> time \<Rightarrow> int" where
  "Time_Sub t u = max minDuration (min maxDuration (t - u))"

text \<open>
  One pass of the sweep over an entry: \<open>True\<close> when the entry is deleted.
\<close>

definition swept :: "time \<Rightarrow> int \<Rightarrow> Process \<Rightarrow> bool" where
  "swept now cleanupThreshold p =
     (if Status p \<noteq> StatusCompleted \<and> Status p \<noteq> StatusFailed \<and> Status p \<noteq> StatusStopped
      then False
      else (case CompletedAt p of
              None \<Rightarrow> False
            | Some t \<Rightarrow> cleanupThreshold \<le> Time_Sub now t))"

definition cleanup :: "time \<Rightarrow> Manager \<Rightarrow> Manager" where
  "cleanup now m =
     m\<lparr>processes := filter (\<lambda>(pid, p). \<not> swept now (CleanupDelay (config m)) p) (processes m)\<rparr>"

text \<open>
  \<^verbatim>\<open>StartCleanup\<close> at \<open>t0\<close> starts a ticker of period \<^verbatim>\<open>CleanupDelay\<close> (a panic of
  \<^verbatim>\<open>time.NewTicker\<close> when the period is not positive) and runs one sweep for each tick
  it receives. The ticks up to the instant \<open>at\<close> fall at \<open>t0 + d\<close>, \<open>t0 + 2 d\<close>, ...
  A sweep reads the clock itself, some time after its tick: the \<open>k\<close>-th sweep reads it
  \<open>delays ! k\<close> nanoseconds after the \<open>k\<close>-th tick, and the sweeps follow one another, so
  by \<open>at\<close> the sweeps done are those up to the first one that reads the clock after
  \<open>at\<close>. \<open>StartCleanup\<close> below is the table at \<open>at\<close> when nothing else touches it.
\<close>

definition ticks :: "time \<Rightarrow> int \<Rightarrow> time \<Rightarrow> time list" where
  "ticks t0 d at = map (\<lambda>k. t0 + int k * d) [1 ..< Suc (nat ((at - t0) div d))]"

definition sweep_times :: "time \<Rightarrow> int \<Rightarrow> time \<Rightarrow> nat list \<Rightarrow> time list" where
  "sweep_times t0 d at delays =
     takeWhile (\<lambda>x. x \<le> at) (map (\<lambda>(tick, delay). tick + int delay) (zip (ticks t0 d at) delays))"

datatype ticker_panic = NonPositiveInterval

definition StartCleanup :: "time \<Rightarrow> time \<Rightarrow> nat list \<Rightarrow> Manager \<Rightarrow> ticker_panic + Manager" where
  "StartCleanup t0 at delays m =
     (if CleanupDelay (config m) \<le> 0 then Inl NonPositiveInterval
      else Inr (fold cleanup (sweep_times t0 (CleanupDelay (config m)) at delays) m))"

section \<open>The Claude connector (package connector, ClaudeConnector)\<close>

text \<open>
  \<^verbatim>\<open>strings.TrimSpace\<close> removes the leading and the trailing white space of a string,
  as \<^verbatim>\<open>unicode.IsSpace\<close> defines it; strings are UTF-8 bytes, so a white space rune
  is one of the byte sequences below.
\<close>

definition space_encodings :: "string list" where
  "space_encodings =
     [[CHR 0x09], [CHR 0x0A], [CHR 0x0B], [CHR 0x0C], [CHR 0x0D], [CHR 0x20],
      [CHR 0xC2, CHR 0x85], [CHR 0xC2, CHR 0xA0], [CHR 0xE1, CHR 0x9A, CHR 0x80],
      [CHR 0xE2, CHR 0x80, CHR 0x80], [CHR 0xE2, CHR 0x80, CHR 0x81],
      [CHR 0xE2, CHR 0x80, CHR 0x82], [CHR 0xE2, CHR 0x80, CHR 0x83],
      [CHR 0xE2, CHR 0x80, CHR 0x84], [CHR 0xE2, CHR 0x80, CHR 0x85],
      [CHR 0xE2, CHR 0x80, CHR 0x86], [CHR 0xE2, CHR 0x80, CHR 0x87],
      [CHR 0xE2, CHR 0x80, CHR 0x88], [CHR 0xE2, CHR 0x80, CHR 0x89],
      [CHR 0xE2, CHR 0x80, CHR 0x8A], [CHR 0xE2, CHR 0x80, CHR 0xA8],
      [CHR 0xE2, CHR 0x80, CHR 0xA9], [CHR 0xE2, CHR 0x80, CHR 0xAF],
      [CHR 0xE2, CHR 0x81, CHR 0x9F], [CHR 0xE3, CHR 0x80, CHR 0x80]]"

text \<open>The number of bytes of the white space rune that \<open>s\<close> starts with, 0 when none.\<close>

definition lead_space :: "string \<Rightarrow> nat" where
  "lead_space s =
     (case filter (\<lambda>e. take (length e) s = e) space_encodings of
        [] \<Rightarrow> 0
      | e # _ \<Rightarrow> length e)"

text \<open>The same at the end of \<open>s\<close>.\<close>

definition trail_space :: "string \<Rightarrow> nat" where
  "trail_space s =
     (case filter (\<lambda>e. length e \<le> length s \<and> drop (length s - length e) s = e) space_encodings of
        [] \<Rightarrow> 0
      | e # _ \<Rightarrow> length e)"

text \<open>
  The two loops of the trimming; each round removes at least one byte, so \<open>length s\<close>
  rounds are enough for \<open>s\<close>.
\<close>

fun TrimLeft :: "nat \<Rightarrow> string \<Rightarrow> string" where
  "TrimLeft 0 s = s"
| "TrimLeft (Suc n) s = (if lead_space s = 0 then s else TrimLeft n (drop (lead_space s) s))"

fun TrimRight :: "nat \<Rightarrow> string \<Rightarrow> string" where
  "TrimRight 0 s = s"
| "TrimRight (Suc n) s =
     (if trail_space s = 0 then s else TrimRight n (take (length s - trail_space s) s))"

definition TrimSpace :: "string \<Rightarrow> string" where
  "TrimSpace s = (let l = TrimLeft (length s) s in TrimRight (length l) l)"

text \<open>
  What \<^verbatim>\<open>json.Unmarshal\<close> into a \<^verbatim>\<open>map[string]interface{}\<close> gives: the members
  of the map it fills, or \<open>None\<close> for its error. The decoder is the standard library's
  and a parameter of \<open>ParseLine\<close>; the error that \<open>ParseLine\<close> returns is always
  \<^verbatim>\<open>nil\<close>.
\<close>

datatype json =
    JNull
  | JBool bool
  | JNumber string
  | JString string
  | JArray "json list"
  | JObject "(string \<times> json) list"

type_synonym json_Unmarshal = "string \<Rightarrow> (string \<times> json) list option"

definition ParseLine :: "json_Unmarshal \<Rightarrow> string \<Rightarrow> Event option \<times> error option" where
  "ParseLine unmarshal line0 =
     (let line = TrimSpace line0 in
      if line = [] then (None, None)
      else
        (case unmarshal line of
           None \<Rightarrow> (None, None)
         | Some rawJSON \<Rightarrow>
             let eventType =
                   (case map_of rawJSON ''type'' of
                      Some (JString typeField) \<Rightarrow>
                        if typeField = ''result'' then ''result'' else ''stream''
                    | _ \<Rightarrow> ''stream'')
             in (Some \<lparr>Type = eventType, Data = Raw line, Timestamp = 0\<rparr>, None)))"

section \<open>Spawning and supervising a job (package runner, Runner)\<close>

definition Spawn :: "Process \<Rightarrow> Process" where
  "Spawn p = (SetStatus StatusRunning p)\<lparr>cancel := Some False\<rparr>"

definition sendErrorEvent :: "string \<Rightarrow> time \<Rightarrow> Process \<Rightarrow> panic + Process" where
  "sendErrorEvent errorMsg now p =
     AddEvent \<lparr>Type = ''error'', Data = ErrorJSON errorMsg, Timestamp = now\<rparr> p"

definition sendDoneEvent :: "time \<Rightarrow> Process \<Rightarrow> panic + Process" where
  "sendDoneEvent now p =
     AddEvent \<lparr>Type = ''done'', Data = DoneJSON (ID p) (Status p) (GetResult p),
               Timestamp = now\<rparr> p"

text \<open>The body of the loop of \<^verbatim>\<open>streamOutput\<close> for one line of output.\<close>

definition stream_line :: "json_Unmarshal \<Rightarrow> string \<Rightarrow> time \<Rightarrow> Process \<Rightarrow> panic + Process" where
  "stream_line unmarshal line now p =
     (case ParseLine unmarshal line of
        (ev, Some err) \<Rightarrow> Inr p
      | (None, None) \<Rightarrow> Inr p
      | (Some event0, None) \<Rightarrow>
          let event = event0\<lparr>Timestamp := now\<rparr> in
          (case AddEvent event p of
             Inl pn \<Rightarrow> Inl pn
           | Inr p1 \<Rightarrow>
               Inr (if Type event = ''result'' then SetResultData (Data event) now p1 else p1)))"

fun streamOutput ::
  "json_Unmarshal \<Rightarrow> (string \<times> time) list \<Rightarrow> Process \<Rightarrow> panic + Process" where
  "streamOutput unmarshal [] p = Inr p"
| "streamOutput unmarshal ((line, now) # rest) p =
     (case stream_line unmarshal line now p of
        Inl pn \<Rightarrow> Inl pn
      | Inr p1 \<Rightarrow> streamOutput unmarshal rest p1)"

text \<open>
  The error of \<^verbatim>\<open>cmd.Wait\<close>: an \<^verbatim>\<open>*exec.ExitError\<close> with its exit code, or another
  error; both with their message.
\<close>

datatype cmd_error = ExitError int string | OtherError string

fun getExitCode :: "cmd_error \<Rightarrow> int" where
  "getExitCode (ExitError code msg) = code"
| "getExitCode (OtherError msg) = 1"

fun error_message :: "cmd_error \<Rightarrow> string" where
  "error_message (ExitError code msg) = msg"
| "error_message (OtherError msg) = msg"

definition handleError :: "string \<Rightarrow> time \<Rightarrow> Process \<Rightarrow> panic + Process" where
  "handleError err now p =
     (let p1 = SetStatus StatusFailed p;
          p2 = SetResult (Some \<lparr>ExitCode = 1, Output = None, Error = err\<rparr>) p1
      in case sendErrorEvent err now p2 of
           Inl pn \<Rightarrow> Inl pn
         | Inr p3 \<Rightarrow>
             (case sendDoneEvent now p3 of
                Inl pn \<Rightarrow> Inl pn
              | Inr p4 \<Rightarrow> Inr (Close now p4)))"

text \<open>
  The \<^verbatim>\<open>select\<close> of \<^verbatim>\<open>run\<close> takes the case of the cancelled context or the case of
  the finished command; when both are ready Go takes either.
\<close>

datatype select_case = ctx_Done | cmdDone "cmd_error option"

definition run_select :: "select_case \<Rightarrow> time \<Rightarrow> Process \<Rightarrow> panic + Process" where
  "run_select sc now p =
     (case sc of
        ctx_Done \<Rightarrow>
          let p1 = (case cmd p of Some (Some k) \<Rightarrow> p\<lparr>cmd := Some (Some True)\<rparr> | _ \<Rightarrow> p);
              p2 = SetStatus StatusStopped p1
          in sendErrorEvent ''Process stopped or timed out'' now p2
      | cmdDone (Some cmdErr) \<Rightarrow>
          let p1 = SetStatus StatusFailed p;
              p2 = SetResult (Some \<lparr>ExitCode = getExitCode cmdErr, Output = None,
                                    Error = error_message cmdErr\<rparr>) p1
          in sendErrorEvent (error_message cmdErr) now p2
      | cmdDone None \<Rightarrow>
          Inr (SetResult (Some \<lparr>ExitCode = 0, Output = None, Error = []\<rparr>)
                 (SetStatus StatusCompleted p)))"

text \<open>The end of \<^verbatim>\<open>run\<close>: the \<^verbatim>\<open>select\<close>, the done event, \<^verbatim>\<open>Close\<close>.\<close>

definition run_finish :: "select_case \<Rightarrow> time \<Rightarrow> Process \<Rightarrow> panic + Process" where
  "run_finish sc now p =
     (case run_select sc now p of
        Inl pn \<Rightarrow> Inl pn
      | Inr p1 \<Rightarrow>
          (case sendDoneEvent now p1 of
             Inl pn \<Rightarrow> Inl pn
           | Inr p2 \<Rightarrow> Inr (Close now p2)))"

text \<open>
  The start of \<^verbatim>\<open>run\<close>: the command is stored, then the pipe or the start may fail.
  \<open>Inl\<close> of the inner sum: \<^verbatim>\<open>run\<close> has returned through \<^verbatim>\<open>handleError\<close>.
\<close>

datatype launch = PipeError string | StartError string | Launched

definition run_begin :: "launch \<Rightarrow> time \<Rightarrow> Process \<Rightarrow> panic + (Process + Process)" where
  "run_begin l now p =
     (let p1 = p\<lparr>cmd := Some None\<rparr> in
      case l of
        PipeError e \<Rightarrow>
          (case handleError (''failed to create stdout pipe: '' @ e) now p1 of
             Inl pn \<Rightarrow> Inl pn | Inr p2 \<Rightarrow> Inr (Inl p2))
      | StartError e \<Rightarrow>
          (case handleError (''failed to start command: '' @ e) now p1 of
             Inl pn \<Rightarrow> Inl pn | Inr p2 \<Rightarrow> Inr (Inl p2))
      | Launched \<Rightarrow> Inr (Inr (p1\<lparr>cmd := Some (Some False)\<rparr>)))"

text \<open>
  What the goroutines of one job and the request handlers do to the job, one locked
  step at a time; a run of the program is a list of such steps in the order in which
  they take the job's lock.
\<close>

datatype action =
    Act_Spawn
  | Act_SetCmd "exec_Cmd option"
  | Act_Line string time
  | Act_SetStatus string
  | Act_SetResult "Result option"
  | Act_sendErrorEvent string time
  | Act_sendDoneEvent time
  | Act_Close time
  | Act_Stop time
  | Act_Subscribe string
  | Act_Unsubscribe string
  | Act_Receive string

text \<open>A stream reader takes the oldest event out of its channel.\<close>

definition receive :: "string \<Rightarrow> Process \<Rightarrow> Process" where
  "receive subscriberID p =
     (case map_of (subscribers p) subscriberID of
        None \<Rightarrow> p
      | Some ch \<Rightarrow> p\<lparr>subscribers := AList.update subscriberID (ch\<lparr>buf := tl (buf ch)\<rparr>) (subscribers p)\<rparr>)"

fun act :: "json_Unmarshal \<Rightarrow> action \<Rightarrow> Process \<Rightarrow> panic + Process" where
  "act u Act_Spawn p = Inr (Spawn p)"
| "act u (Act_SetCmd c) p = Inr (p\<lparr>cmd := c\<rparr>)"
| "act u (Act_Line line now) p = stream_line u line now p"
| "act u (Act_SetStatus s) p = Inr (SetStatus s p)"
| "act u (Act_SetResult r) p = Inr (SetResult r p)"
| "act u (Act_sendErrorEvent msg now) p = sendErrorEvent msg now p"
| "act u (Act_sendDoneEvent now) p = sendDoneEvent now p"
| "act u (Act_Close now) p = Inr (Close now p)"
| "act u (Act_Stop now) p = Inr (Stop now p)"
| "act u (Act_Subscribe sid) p = Inr (Subscribe sid p)"
| "act u (Act_Unsubscribe sid) p = Inr (Unsubscribe sid p)"
| "act u (Act_Receive sid) p = Inr (receive sid p)"

fun acts :: "json_Unmarshal \<Rightarrow> action list \<Rightarrow> Process \<Rightarrow> panic + Process" where
  "acts u [] p = Inr p"
| "acts u (a # as) p = (case act u a p of Inl pn \<Rightarrow> Inl pn | Inr p1 \<Rightarrow> acts u as p1)"

section \<open>What holds of every job\<close>

text \<open>The kinds of event that the code makes.\<close>

definition event_kinds :: "string set" where
  "event_kinds = {''stream'', ''result'', ''error'', ''done''}"

text \<open>
  \<open>job_inv c K p\<close>: the events queued in the subscriber channels of \<open>p\<close> have their kind
  in \<open>K\<close>, and the ring buffer of \<open>p\<close> is a well-formed buffer of capacity \<open>c\<close> whose
  items have their kind in \<open>K\<close> (for capacity 0: the empty buffer).
\<close>

definition chans_in :: "string set \<Rightarrow> (string \<times> chan) list \<Rightarrow> bool" where
  "chans_in K subs \<longleftrightarrow> (\<forall>(sid, ch) \<in> set subs. \<forall>e \<in> set (buf ch). Type e \<in> K)"

definition job_inv :: "nat \<Rightarrow> string set \<Rightarrow> Process \<Rightarrow> bool" where
  "job_inv c K p \<longleftrightarrow>
     chans_in K (subscribers p) \<and>
     (if 0 < c then \<exists>ys. rb_holds c (events p) ys \<and> (\<forall>e \<in> set ys. Type e \<in> K)
      else data (events p) = [] \<and> count (events p) = 0)"

text \<open>No line of the run \<open>as\<close> is parsed into a result event.\<close>

definition no_result_line :: "json_Unmarshal \<Rightarrow> action list \<Rightarrow> bool" where
  "no_result_line u as \<longleftrightarrow>
     (\<forall>a \<in> set as.
        case a of
          Act_Line line now \<Rightarrow>
            (case fst (ParseLine u line) of None \<Rightarrow> True | Some e \<Rightarrow> Type e \<noteq> ''result'')
        | _ \<Rightarrow> True)"

section \<open>Proofs: ring buffer\<close>

lemma smod_nonneg_pos: "0 \<le> a \<Longrightarrow> 0 < b \<Longrightarrow> a smod b = a mod (b::int)"
  by (simp add: signed_modulo_int_def sgn_if)

lemma Push_ok:
  assumes "head rb = int h" "h < length (data rb)" "size_rb rb = int c" "0 < c"
  shows "Push x rb = Inr (rb\<lparr>data := (data rb)[h := x], head := int (Suc h mod c),
            count := (if count rb < int c then count rb + 1 else count rb)\<rparr>)"
proof -
  have "(int h + 1) smod int c = (int h + 1) mod int c"
    using assms(4) by (intro smod_nonneg_pos) auto
  also have "\<dots> = int (Suc h mod c)"
    by (simp add: zmod_int add.commute)
  finally have m: "(int h + 1) smod int c = int (Suc h mod c)" .
  show ?thesis using assms
    by (simp add: Push_def Let_def m)
qed

lemma push_holds_notfull:
  assumes "rb_holds c rb ys" "length ys < c"
  shows "\<exists>rb'. Push x rb = Inr rb' \<and> rb_holds c rb' (ys @ [x])"
proof -
  let ?n = "length ys"
  from assms have h: "head rb = int ?n" and d: "length (data rb) = c"
    and s: "size_rb rb = int c" and cnt: "count rb = int ?n"
    and t: "take ?n (data rb) = ys"
    by (auto simp: rb_holds_def)
  have P: "Push x rb = Inr (rb\<lparr>data := (data rb)[?n := x], head := int (Suc ?n mod c),
            count := int ?n + 1\<rparr>)"
    using Push_ok[OF h _ s, of x] assms(2) d cnt by simp
  have tk: "take (Suc ?n) ((data rb)[?n := x]) = ys @ [x]"
    using t d assms(2) by (simp add: take_Suc_conv_app_nth)
  have "rb_holds c (rb\<lparr>data := (data rb)[?n := x], head := int (Suc ?n mod c),
            count := int ?n + 1\<rparr>) (ys @ [x])"
  proof (cases "Suc ?n < c")
    case True
    then show ?thesis using d s tk
      by (simp add: rb_holds_def)
  next
    case False
    with assms(2) have e: "Suc ?n = c" by simp
    have "(data rb)[?n := x] = ys @ [x]"
      using tk d e by simp
    then show ?thesis using d s e
      by (simp add: rb_holds_def)
  qed
  with P show ?thesis by blast
qed

lemma push_holds_full:
  assumes "rb_holds c rb ys" "length ys = c" "0 < c"
  shows "\<exists>rb'. Push x rb = Inr rb' \<and> rb_holds c rb' (tl ys @ [x])"
proof -
  obtain h where h: "head rb = int h" "h < c"
    using assms(1) by (auto simp: rb_holds_def intro: that[of "nat (head rb)"])
  from assms h have d: "length (data rb) = c"
    and s: "size_rb rb = int c" and cnt: "count rb = int c"
    and r: "drop h (data rb) @ take h (data rb) = ys"
    by (auto simp: rb_holds_def)
  have P: "Push x rb = Inr (rb\<lparr>data := (data rb)[h := x], head := int (Suc h mod c),
            count := int c\<rparr>)"
    using Push_ok[OF h(1) _ s, of x] h(2) d cnt assms(3) by simp
  have ys: "tl ys = drop (Suc h) (data rb) @ take h (data rb)"
    using r h d by (metis Cons_nth_drop_Suc append_Cons list.sel(3))
  have "rb_holds c (rb\<lparr>data := (data rb)[h := x], head := int (Suc h mod c),
            count := int c\<rparr>) (tl ys @ [x])"
  proof (cases "Suc h < c")
    case True
    have "drop (Suc h) ((data rb)[h := x]) @ take (Suc h) ((data rb)[h := x]) = tl ys @ [x]"
      using ys d h by (simp add: take_Suc_conv_app_nth)
    then show ?thesis using True d s assms(2,3)
      by (simp add: rb_holds_def del: of_nat_Suc)
  next
    case False
    with h have e: "Suc h = c" by simp
    have "take (Suc h) ((data rb)[h := x]) = take h (data rb) @ [x]"
      using d h by (simp add: take_Suc_conv_app_nth)
    moreover have "drop (Suc h) (data rb) = []" using d e by simp
    ultimately have "(data rb)[h := x] = tl ys @ [x]"
      using ys d e by simp
    then show ?thesis using e d s assms(2,3)
      by (simp add: rb_holds_def)
  qed
  with P show ?thesis by blast
qed

lemma make_slice_ok:
  assumes "n \<le> maxlen"
  shows "make_slice maxlen zero (int n) = Inr (replicate n zero)"
  using assms by (simp add: make_slice_def)

lemma ToSlice_holds:
  assumes "rb_holds c rb ys" "c \<le> maxlen"
  shows "ToSlice maxlen zero rb = Inr ys"
proof -
  from assms have "length ys \<le> maxlen" by (simp add: rb_holds_def)
  then have mk: "make_slice maxlen zero (int (length ys)) = Inr (replicate (length ys) zero)"
    by (rule make_slice_ok)
  from assms(1) have cnt: "count rb = int (length ys)" by (simp add: rb_holds_def)
  show ?thesis
  proof (cases "length ys < c")
    case True
    then show ?thesis using assms(1) mk
      by (auto simp: rb_holds_def ToSlice_def Let_def copy_go_def)
  next
    case False
    with assms have e: "length ys = c" by (simp add: rb_holds_def)
    obtain h where h: "head rb = int h" "h < c"
      using assms(1) by (auto simp: rb_holds_def intro: that[of "nat (head rb)"])
    from assms e h have d: "length (data rb) = c"
      and s: "size_rb rb = int c"
      and r: "drop h (data rb) @ take h (data rb) = ys"
      by (auto simp: rb_holds_def)
    have "ToSlice maxlen zero rb = Inr (drop h (data rb) @ take h (data rb))"
      using h d s cnt mk e by (auto simp: ToSlice_def Let_def copy_go_def min_def)
    with r show ?thesis by simp
  qed
qed

lemma last_n_step:
  assumes "length ys \<le> c" "0 < c"
  shows "(if length ys < c then ys @ [x] else tl ys @ [x]) = last_n c (ys @ [x])"
  using assms by (cases ys) (auto simp: last_n_def)

lemma last_n_append: "last_n c (last_n c ys @ xs) = last_n c (ys @ xs)"
proof (cases "length ys \<le> c")
  case True
  then show ?thesis by (simp add: last_n_def)
next
  case False
  then have "length ys + length xs - (length ys - c + c) + (length ys - c) = length ys + length xs - c"
    by simp
  with False show ?thesis by (simp add: last_n_def)
qed

lemma Push_holds:
  assumes "rb_holds c rb ys" "0 < c"
  shows "\<exists>rb'. Push x rb = Inr rb' \<and> rb_holds c rb' (last_n c (ys @ [x]))"
proof -
  have le: "length ys \<le> c" using assms(1) by (simp add: rb_holds_def)
  show ?thesis
  proof (cases "length ys < c")
    case True
    with push_holds_notfull[OF assms(1) True, of x] last_n_step[OF le assms(2), of x]
    show ?thesis by simp
  next
    case False
    with le have "length ys = c" by simp
    with push_holds_full[OF assms(1) this assms(2), of x] last_n_step[OF le assms(2), of x] False
    show ?thesis by simp
  qed
qed

lemma PushAll_holds:
  assumes "rb_holds c rb ys" "0 < c"
  shows "\<exists>rb'. PushAll xs rb = Inr rb' \<and> rb_holds c rb' (last_n c (ys @ xs))"
  using assms(1)
proof (induction xs arbitrary: rb ys)
  case Nil
  then have "last_n c ys = ys" by (simp add: last_n_def rb_holds_def)
  with Nil show ?case by simp
next
  case (Cons x xs)
  from Push_holds[OF Cons.prems assms(2), of x]
  obtain rb1 where p: "Push x rb = Inr rb1" and h: "rb_holds c rb1 (last_n c (ys @ [x]))"
    by blast
  from Cons.IH[OF h] obtain rb' where
    "PushAll xs rb1 = Inr rb'" "rb_holds c rb' (last_n c (last_n c (ys @ [x]) @ xs))"
    by blast
  then show ?case using p by (simp add: last_n_append)
qed

lemma NewRingBuffer_holds:
  assumes "1 \<le> c" "c \<le> int maxlen"
  shows "\<exists>rb. NewRingBuffer maxlen zero c = Inr rb \<and> rb_holds (nat c) rb []"
  using assms by (simp add: NewRingBuffer_def make_slice_def rb_holds_def)

lemma NewRingBuffer_Inr:
  assumes "NewRingBuffer maxlen zero c = Inr rb"
  shows "0 \<le> c" "c \<le> int maxlen"
    "rb = \<lparr>data = replicate (nat c) zero, size_rb = c, head = 0, count = 0\<rparr>"
  using assms by (auto simp: NewRingBuffer_def make_slice_def split: if_splits)

lemma Push_after_Push:
  assumes "Push x rb = Inr rb'"
  shows "Push_after x rb = rb'"
  using assms by (auto simp: Push_def Push_after_def Let_def split: if_splits)

lemma Push_zero_capacity:
  assumes "length (data rb) = 0"
  shows "Push x rb = Inl IndexOutOfRange"
  using assms by (auto simp: Push_def)


text \<open>
  Claim C3. A ring buffer of capacity \<open>c \<ge> 1\<close> (a capacity that \<^verbatim>\<open>make\<close> accepts)
  that has taken \<open>c + k\<close> pushes (\<open>k \<ge> 0\<close>): no push has failed, \<open>ToSlice\<close> returns
  exactly \<open>c\<close> items, the last \<open>c\<close> items pushed, oldest first; and one more push
  succeeds and replaces the oldest item by the new one.
\<close>

theorem ring_buffer_keeps_last_items:
  assumes "1 \<le> c" and "c \<le> int maxlen" and "length xs = nat c + k"
  shows "\<exists>rb0 rb. NewRingBuffer maxlen zero c = Inr rb0 \<and> PushAll xs rb0 = Inr rb \<and>
           ToSlice maxlen zero rb = Inr (drop k xs) \<and> int (length (drop k xs)) = c \<and>
           (\<forall>x. \<exists>rb'. Push x rb = Inr rb' \<and>
              ToSlice maxlen zero rb' = Inr (drop (Suc k) xs @ [x]))"
proof -
  from NewRingBuffer_holds[OF assms(1,2), of zero] obtain rb0 where
    n: "NewRingBuffer maxlen zero c = Inr rb0" and h0: "rb_holds (nat c) rb0 []" by blast
  have pos: "0 < nat c" using assms(1) by simp
  have le: "nat c \<le> maxlen" using assms(2) by simp
  from PushAll_holds[OF h0 pos, of xs] obtain rb where
    p: "PushAll xs rb0 = Inr rb" and h1: "rb_holds (nat c) rb (last_n (nat c) ([] @ xs))" by blast
  have l: "last_n (nat c) xs = drop k xs" using assms(3) by (simp add: last_n_def)
  from h1 have h: "rb_holds (nat c) rb (last_n (nat c) xs)" by simp
  have len: "int (length (drop k xs)) = c" using assms by simp
  have snap: "ToSlice maxlen zero rb = Inr (drop k xs)"
    using ToSlice_holds[OF h le, of zero] l by simp
  have step: "\<exists>rb'. Push x rb = Inr rb' \<and>
      ToSlice maxlen zero rb' = Inr (drop (Suc k) xs @ [x])" for x
  proof -
    from Push_holds[OF h pos, of x] obtain rb' where
      q: "Push x rb = Inr rb'" and h': "rb_holds (nat c) rb' (last_n (nat c) (last_n (nat c) xs @ [x]))"
      by blast
    have "last_n (nat c) (last_n (nat c) xs @ [x]) = drop (Suc k) xs @ [x]"
      using assms by (simp add: last_n_def)
    with h' have "rb_holds (nat c) rb' (drop (Suc k) xs @ [x])" by simp
    from ToSlice_holds[OF this le, of zero] q show ?thesis by blast
  qed
  then have st: "\<forall>x. \<exists>rb'. Push x rb = Inr rb' \<and>
      ToSlice maxlen zero rb' = Inr (drop (Suc k) xs @ [x])" ..
  have "NewRingBuffer maxlen zero c = Inr rb0 \<and> PushAll xs rb0 = Inr rb \<and>
           ToSlice maxlen zero rb = Inr (drop k xs) \<and> int (length (drop k xs)) = c \<and>
           (\<forall>x. \<exists>rb'. Push x rb = Inr rb' \<and>
              ToSlice maxlen zero rb' = Inr (drop (Suc k) xs @ [x]))"
    using n p snap len st by (intro conjI)
  then show ?thesis by (intro exI)
qed

text \<open>Capacity 2 and the pushes 1, 2, 3: the snapshot is 2, 3, and after \<open>x\<close> it is 3, \<open>x\<close>.\<close>

theorem ring_buffer_keeps_last_items_witness:
  "\<exists>rb0 rb. NewRingBuffer 1000 (0::nat) 2 = Inr rb0 \<and> PushAll [1, 2, 3] rb0 = Inr rb \<and>
     ToSlice 1000 0 rb = Inr [2, 3] \<and>
     (\<forall>x. \<exists>rb'. Push x rb = Inr rb' \<and> ToSlice 1000 0 rb' = Inr [3, x])"
proof -
  have a: "(1::int) \<le> 2" by simp
  have a': "(2::int) \<le> int 1000" by simp
  have b: "length [1, 2, 3::nat] = nat 2 + 1" by simp
  have c: "drop 1 [1, 2, 3::nat] = [2, 3]" by simp
  have d: "drop (Suc 1) [1, 2, 3::nat] @ [x] = [3, x]" for x by simp
  from ring_buffer_keeps_last_items [OF a a' b, of 0] show ?thesis
    unfolding c d by blast
qed

text \<open>
  Claim C10. \<open>NewRingBuffer\<close> has no check of its own: whatever slice \<^verbatim>\<open>make\<close> gives
  for the capacity becomes the buffer, with that capacity, and the only failure is the
  panic of \<^verbatim>\<open>make\<close>. The capacity 0 is taken. On the buffer of capacity 0 every call of
  \<open>Push\<close> panics, on the index into the empty slice, and leaves the buffer as it was,
  so that the next call panics as well; the modulus by the capacity 0 is a panic too,
  whenever a buffer of size 0 gets past the index. On a buffer of capacity \<open>\<ge> 1\<close>
  every run of pushes succeeds. (\<open>Push_after\<close>, the buffer as a call leaves it, is the
  buffer that \<open>Push\<close> returns whenever it returns.)
\<close>

theorem Push_needs_positive_capacity:
  "(\<forall>c d. make_slice maxlen (zero :: 'a) c = Inr d \<longrightarrow>
      NewRingBuffer maxlen zero c = Inr \<lparr>data = d, size_rb = c, head = 0, count = 0\<rparr>) \<and>
   (\<forall>c pn. make_slice maxlen zero c = Inl pn \<longrightarrow> NewRingBuffer maxlen zero c = Inl pn) \<and>
   (\<exists>rb0. NewRingBuffer maxlen zero 0 = Inr rb0 \<and> size_rb rb0 = 0 \<and>
      (\<forall>x. Push x rb0 = Inl IndexOutOfRange \<and> Push_after x rb0 = rb0)) \<and>
   (\<forall>rb x. size_rb rb = 0 \<and> 0 \<le> head rb \<and> head rb < int (length (data rb)) \<longrightarrow>
      Push x rb = Inl DivideByZero) \<and>
   (\<forall>c rb0 xs. 1 \<le> c \<and> NewRingBuffer maxlen zero c = Inr rb0 \<longrightarrow>
      (\<exists>rb. PushAll xs rb0 = Inr rb)) \<and>
   (\<forall>(x :: 'a) rb rb'. Push x rb = Inr rb' \<longrightarrow> Push_after x rb = rb')"
proof -
  have a: "\<forall>c d. make_slice maxlen zero c = Inr d \<longrightarrow>
      NewRingBuffer maxlen zero c = Inr \<lparr>data = d, size_rb = c, head = 0, count = 0\<rparr>"
    by (simp add: NewRingBuffer_def)
  have b: "\<forall>c pn. make_slice maxlen zero c = Inl pn \<longrightarrow> NewRingBuffer maxlen zero c = Inl pn"
    by (simp add: NewRingBuffer_def)
  let ?rb0 = "\<lparr>data = [], size_rb = 0, head = 0, count = 0\<rparr> :: 'a RingBuffer"
  have c1: "NewRingBuffer maxlen zero 0 = Inr ?rb0"
    by (simp add: NewRingBuffer_def make_slice_def)
  have c2: "Push x ?rb0 = Inl IndexOutOfRange \<and> Push_after x ?rb0 = ?rb0" for x
    by (simp add: Push_def Push_after_def)
  have c: "\<exists>rb0. NewRingBuffer maxlen zero 0 = Inr rb0 \<and> size_rb rb0 = 0 \<and>
      (\<forall>x. Push x rb0 = Inl IndexOutOfRange \<and> Push_after x rb0 = rb0)"
    using c1 c2 by (intro exI[of _ ?rb0]) simp
  have d: "\<forall>rb x. size_rb rb = 0 \<and> 0 \<le> head rb \<and> head rb < int (length (data rb)) \<longrightarrow>
      Push x rb = Inl DivideByZero"
    by (simp add: Push_def)
  have e: "\<exists>rb. PushAll xs rb0 = Inr rb" if "1 \<le> c \<and> NewRingBuffer maxlen zero c = Inr rb0"
    for c and rb0 :: "'a RingBuffer" and xs
  proof -
    from that have n: "NewRingBuffer maxlen zero c = Inr rb0" and c1: "1 \<le> c" by simp_all
    from NewRingBuffer_holds[OF c1 NewRingBuffer_Inr(2)[OF n], of zero] n
    have h0: "rb_holds (nat c) rb0 []" by auto
    from c1 have "0 < nat c" by simp
    from PushAll_holds[OF h0 this, of xs] show ?thesis by blast
  qed
  have f: "\<forall>(x :: 'a) rb rb'. Push x rb = Inr rb' \<longrightarrow> Push_after x rb = rb'"
    using Push_after_Push by blast
  from a b c d e f show ?thesis by blast
qed

text \<open>The capacities 0, 1 and -1, and a buffer of size 0 with one slot.\<close>

theorem Push_needs_positive_capacity_witness:
  "(\<exists>rb0. NewRingBuffer 1000 (0::nat) 0 = Inr rb0 \<and> size_rb rb0 = 0 \<and>
      (\<forall>x. Push x rb0 = Inl IndexOutOfRange \<and> Push_after x rb0 = rb0)) \<and>
   NewRingBuffer 1000 (0::nat) 1 = Inr \<lparr>data = [0], size_rb = 1, head = 0, count = 0\<rparr> \<and>
   NewRingBuffer 1000 (0::nat) (- 1) = Inl MakeSliceLenOutOfRange \<and>
   Push (7::nat) \<lparr>data = [0], size_rb = 0, head = 0, count = 0\<rparr> = Inl DivideByZero \<and>
   (\<exists>rb. PushAll [7, 8] \<lparr>data = [0::nat], size_rb = 1, head = 0, count = 0\<rparr> = Inr rb)"
proof -
  note t = Push_needs_positive_capacity [where zero = "0::nat" and maxlen = 1000]
  have m1: "make_slice 1000 (0::nat) 1 = Inr [0]" by (simp add: make_slice_def)
  have m2: "make_slice 1000 (0::nat) (- 1) = Inl MakeSliceLenOutOfRange"
    by (simp add: make_slice_def)
  have t1: "NewRingBuffer 1000 (0::nat) 1 = Inr \<lparr>data = [0], size_rb = 1, head = 0, count = 0\<rparr>"
    using t [THEN conjunct1, rule_format, OF m1] .
  have t2: "NewRingBuffer 1000 (0::nat) (- 1) = Inl MakeSliceLenOutOfRange"
    using t [THEN conjunct2, THEN conjunct1, rule_format, OF m2] .
  note t3 = t [THEN conjunct2, THEN conjunct2, THEN conjunct1]
  have t4: "Push (7::nat) \<lparr>data = [0], size_rb = 0, head = 0, count = 0\<rparr> = Inl DivideByZero"
    using t [THEN conjunct2, THEN conjunct2, THEN conjunct2, THEN conjunct1, rule_format,
        of "\<lparr>data = [0], size_rb = 0, head = 0, count = 0\<rparr>" 7] by simp
  have t5: "\<exists>rb. PushAll [7, 8] \<lparr>data = [0::nat], size_rb = 1, head = 0, count = 0\<rparr> = Inr rb"
    using t [THEN conjunct2, THEN conjunct2, THEN conjunct2, THEN conjunct2, THEN conjunct1,
        rule_format, of 1 "\<lparr>data = [0], size_rb = 1, head = 0, count = 0\<rparr>" "[7, 8]"] t1 by simp
  from t3 t1 t2 t4 t5 show ?thesis by (intro conjI)
qed

section \<open>Proofs: jobs and the job table\<close>

lemmas Status_defs = StatusPending_def StatusRunning_def StatusCompleted_def StatusFailed_def
  StatusStopped_def

lemma Stop_twice: "Stop now' (Stop now p) = Stop now p"
proof (cases "cancel p")
  case None
  show ?thesis
  proof (cases "cmd p")
    case N2: None
    with None show ?thesis by (simp add: Stop_def Let_def Status_defs)
  next
    case (Some c)
    with None show ?thesis by (cases c) (simp_all add: Stop_def Let_def Status_defs)
  qed
next
  case S1: (Some a)
  show ?thesis
  proof (cases "cmd p")
    case None
    with S1 show ?thesis by (simp add: Stop_def Let_def Status_defs)
  next
    case (Some c)
    with S1 show ?thesis by (cases c) (simp_all add: Stop_def Let_def Status_defs)
  qed
qed

lemma Stop_fields:
  "Status (Stop now p) = (if is_active p then StatusStopped else Status p)"
  "CompletedAt (Stop now p) = (if is_active p then Some now else CompletedAt p)"
  "done_ch (Stop now p)"
  "events (Stop now p) = events p"
  "subscribers (Stop now p) = subscribers p"
  "resultData (Stop now p) = resultData p"
  "resultExpiry (Stop now p) = resultExpiry p"
  by (simp_all add: Stop_def Let_def is_active_def split: option.splits)

lemma map_of_update_same: "map_of (AList.update k v al) k = Some v"
  by (simp add: update_conv')

lemma Manager_Stop_twice:
  "Manager_Stop pid now' (fst (Manager_Stop pid now m)) = Manager_Stop pid now m"
proof (cases "map_of (processes m) pid")
  case None
  then show ?thesis by (simp add: Manager_Stop_def)
next
  case (Some q)
  then show ?thesis by (simp add: Manager_Stop_def map_of_update_same Stop_twice)
qed

text \<open>
  Claim C8. \<open>Stop\<close> on a job whose status is pending or running sets the status to
  stopped and \<open>CompletedAt\<close> to the current time, and closes the done channel. A second
  \<open>Stop\<close>, at any later time, changes nothing: \<open>Stop\<close> after \<open>Stop\<close> is \<open>Stop\<close>, on
  the whole job and so on its status, its \<open>CompletedAt\<close> and its done channel. The
  manager's \<open>Stop\<close> answers \<open>ErrProcessNotFound\<close> for an unknown id, applies \<open>Stop\<close>
  to the job otherwise, and is idempotent as well.
\<close>

theorem Stop_is_idempotent:
  "(Status p = StatusPending \<or> Status p = StatusRunning \<longrightarrow>
      Status (Stop now p) = StatusStopped \<and> CompletedAt (Stop now p) = Some now) \<and>
   done_ch (Stop now p) \<and>
   Stop now' (Stop now p) = Stop now p \<and>
   (map_of (processes m) pid = None \<longrightarrow> Manager_Stop pid now m = (m, Some ErrProcessNotFound)) \<and>
   (\<forall>q. map_of (processes m) pid = Some q \<longrightarrow>
      snd (Manager_Stop pid now m) = None \<and>
      Get pid (fst (Manager_Stop pid now m)) = Inr (Stop now q)) \<and>
   Manager_Stop pid now' (fst (Manager_Stop pid now m)) = Manager_Stop pid now m"
proof -
  have a: "Status p = StatusPending \<or> Status p = StatusRunning \<longrightarrow>
      Status (Stop now p) = StatusStopped \<and> CompletedAt (Stop now p) = Some now"
    by (simp add: Stop_fields is_active_def)
  have b: "map_of (processes m) pid = None \<longrightarrow> Manager_Stop pid now m = (m, Some ErrProcessNotFound)"
    by (simp add: Manager_Stop_def)
  have c: "\<forall>q. map_of (processes m) pid = Some q \<longrightarrow>
      snd (Manager_Stop pid now m) = None \<and>
      Get pid (fst (Manager_Stop pid now m)) = Inr (Stop now q)"
    by (simp add: Manager_Stop_def Get_def map_of_update_same)
  from a b c Stop_fields(3)[of now p] Stop_twice[of now' now p] Manager_Stop_twice[of pid now' now m]
  show ?thesis by (intro conjI)
qed

text \<open>A fresh job, stopped at time 7 and again at time 9, alone and in a table.\<close>

theorem Stop_is_idempotent_witness:
  "(case NewProcess 1000 ''a'' ''claude'' ''hi'' [] 2 0 of
      Inl pn \<Rightarrow> False
    | Inr p \<Rightarrow>
        Status (Stop 7 p) = StatusStopped \<and> CompletedAt (Stop 7 p) = Some 7 \<and>
        Stop 9 (Stop 7 p) = Stop 7 p \<and>
        Get ''a'' (fst (Manager_Stop ''a'' 7 (fst (Create 1000 ''a'' ''claude'' ''hi'' [] 0
          (NewManager \<lparr>DefaultTimeout = 300, MaxConcurrent = 1, CleanupDelay = 5, BufferSize = 2\<rparr>)))))
          = Inr (Stop 7 p))"
proof -
  let ?cfg = "\<lparr>DefaultTimeout = 300, MaxConcurrent = 1, CleanupDelay = 5, BufferSize = 2\<rparr>"
  let ?m1 = "fst (Create 1000 ''a'' ''claude'' ''hi'' [] 0 (NewManager ?cfg))"
  obtain p where np: "NewProcess 1000 ''a'' ''claude'' ''hi'' [] 2 0 = Inr p"
    and st: "Status p = StatusPending \<or> Status p = StatusRunning"
    by (simp add: NewProcess_def NewRingBuffer_def make_slice_def)
  have g: "map_of (processes ?m1) ''a'' = Some p"
    using np by (simp add: Create_def NewManager_def Count_def)
  note t = Stop_is_idempotent [of p 7 9 ?m1 "''a''"]
  from t st have "Status (Stop 7 p) = StatusStopped \<and> CompletedAt (Stop 7 p) = Some 7" by blast
  moreover from t have "Stop 9 (Stop 7 p) = Stop 7 p" by blast
  moreover from t g have "Get ''a'' (fst (Manager_Stop ''a'' 7 ?m1)) = Inr (Stop 7 p)" by blast
  ultimately show ?thesis using np by simp
qed

lemma Remove_absent:
  assumes "map_of (processes m) pid = None"
  shows "Remove pid m = (m, Some ErrProcessNotFound)"
  using assms by (simp add: Remove_def)

lemma Remove_active:
  assumes "map_of (processes m) pid = Some p" "Status p = StatusPending \<or> Status p = StatusRunning"
  shows "Remove pid m = (m, Some (errors_New ''cannot remove active process''))"
  using assms by (auto simp: Remove_def Status_defs)

lemma Remove_terminal:
  assumes "map_of (processes m) pid = Some p"
    "Status p = StatusCompleted \<or> Status p = StatusFailed \<or> Status p = StatusStopped"
  shows "Remove pid m = (m\<lparr>processes := AList.delete pid (processes m)\<rparr>, None)"
  using assms by (auto simp: Remove_def)

lemma Get_delete:
  "Get q (m\<lparr>processes := AList.delete pid (processes m)\<rparr>) =
     (if q = pid then Inl ErrProcessNotFound else Get q m)"
  by (simp add: Get_def delete_conv')

text \<open>
  Claim C6. \<open>Remove\<close> of an id that is not in the table answers
  \<open>ErrProcessNotFound\<close>; of a pending or running job it answers the error
  "cannot remove active process" and the table is unchanged, the job still in it; of a
  completed, failed or stopped job it succeeds, the job is no longer in the table and
  every other entry is as before.
\<close>

theorem Remove_only_terminal:
  "(map_of (processes m) pid = None \<longrightarrow> Remove pid m = (m, Some ErrProcessNotFound)) \<and>
   (\<forall>p. map_of (processes m) pid = Some p \<and>
        (Status p = StatusPending \<or> Status p = StatusRunning) \<longrightarrow>
        Remove pid m = (m, Some (errors_New ''cannot remove active process'')) \<and>
        Get pid (fst (Remove pid m)) = Inr p) \<and>
   (\<forall>p. map_of (processes m) pid = Some p \<and>
        (Status p = StatusCompleted \<or> Status p = StatusFailed \<or> Status p = StatusStopped) \<longrightarrow>
        snd (Remove pid m) = None \<and>
        Get pid (fst (Remove pid m)) = Inl ErrProcessNotFound \<and>
        (\<forall>q. q \<noteq> pid \<longrightarrow> Get q (fst (Remove pid m)) = Get q m))"
proof -
  have a: "map_of (processes m) pid = None \<longrightarrow> Remove pid m = (m, Some ErrProcessNotFound)"
    using Remove_absent[of m pid] by blast
  have b: "Remove pid m = (m, Some (errors_New ''cannot remove active process'')) \<and>
        Get pid (fst (Remove pid m)) = Inr p"
    if "map_of (processes m) pid = Some p \<and> (Status p = StatusPending \<or> Status p = StatusRunning)"
    for p
    using that Remove_active[of m pid p] by (simp add: Get_def)
  have c: "snd (Remove pid m) = None \<and>
        Get pid (fst (Remove pid m)) = Inl ErrProcessNotFound \<and>
        (\<forall>q. q \<noteq> pid \<longrightarrow> Get q (fst (Remove pid m)) = Get q m)"
    if "map_of (processes m) pid = Some p \<and>
        (Status p = StatusCompleted \<or> Status p = StatusFailed \<or> Status p = StatusStopped)"
    for p
    using that Remove_terminal[of m pid p] by (simp add: Get_delete)
  from a b c show ?thesis by blast
qed

text \<open>One pending job: an unknown id, the pending job, and the job once stopped.\<close>

theorem Remove_only_terminal_witness:
  "(case NewProcess 1000 ''a'' ''claude'' ''hi'' [] 2 0 of
      Inl pn \<Rightarrow> False
    | Inr p \<Rightarrow>
        (let m1 = fst (Create 1000 ''a'' ''claude'' ''hi'' [] 0
               (NewManager \<lparr>DefaultTimeout = 300, MaxConcurrent = 1, CleanupDelay = 5, BufferSize = 2\<rparr>));
             m2 = fst (Manager_Stop ''a'' 7 m1)
         in Remove ''b'' m1 = (m1, Some ErrProcessNotFound) \<and>
            Remove ''a'' m1 = (m1, Some (errors_New ''cannot remove active process'')) \<and>
            Get ''a'' (fst (Remove ''a'' m1)) = Inr p \<and>
            snd (Remove ''a'' m2) = None \<and>
            Get ''a'' (fst (Remove ''a'' m2)) = Inl ErrProcessNotFound))"
proof -
  let ?cfg = "\<lparr>DefaultTimeout = 300, MaxConcurrent = 1, CleanupDelay = 5, BufferSize = 2\<rparr>"
  let ?m1 = "fst (Create 1000 ''a'' ''claude'' ''hi'' [] 0 (NewManager ?cfg))"
  let ?m2 = "fst (Manager_Stop ''a'' 7 ?m1)"
  obtain p where np: "NewProcess 1000 ''a'' ''claude'' ''hi'' [] 2 0 = Inr p"
    and st: "Status p = StatusPending"
    by (simp add: NewProcess_def NewRingBuffer_def make_slice_def)
  have ga: "map_of (processes ?m1) ''a'' = Some p"
    using np by (simp add: Create_def NewManager_def Count_def)
  have gb: "map_of (processes ?m1) ''b'' = None"
    using np by (simp add: Create_def NewManager_def Count_def)
  have g2: "map_of (processes ?m2) ''a'' = Some (Stop 7 p)"
    using ga by (simp add: Manager_Stop_def map_of_update_same)
  have s2: "Status (Stop 7 p) = StatusStopped"
    using st by (simp add: Stop_fields is_active_def)
  from Remove_only_terminal [of ?m1 "''b''"] gb
  have a: "Remove ''b'' ?m1 = (?m1, Some ErrProcessNotFound)" by blast
  from Remove_only_terminal [of ?m1 "''a''"] ga st
  have b: "Remove ''a'' ?m1 = (?m1, Some (errors_New ''cannot remove active process'')) \<and>
        Get ''a'' (fst (Remove ''a'' ?m1)) = Inr p" by blast
  from Remove_only_terminal [of ?m2 "''a''"] g2 s2
  have c: "snd (Remove ''a'' ?m2) = None \<and>
        Get ''a'' (fst (Remove ''a'' ?m2)) = Inl ErrProcessNotFound" by blast
  from a b c show ?thesis unfolding np sum.case Let_def by blast
qed

lemma filter_update_le:
  "length (filter P (AList.update k v al)) \<le> Suc (length (filter P al))"
  by (induction al) auto

lemma config_Create: "config (fst (Create maxlen pid connector prompt workDir now m)) = config m"
  by (simp add: Create_def split: sum.splits)

lemma Create_refused:
  assumes "MaxConcurrent (config m) \<le> Count m"
  shows "Create maxlen pid connector prompt workDir now m = (m, Fails ErrMaxConcurrent)"
  using assms by (simp add: Create_def)

lemma Count_Create:
  assumes "Count m \<le> MaxConcurrent (config m)"
  shows "Count (fst (Create maxlen pid connector prompt workDir now m)) \<le> MaxConcurrent (config m)"
proof (cases "MaxConcurrent (config m) \<le> Count m")
  case True
  with assms show ?thesis by (simp add: Create_def)
next
  case False
  show ?thesis
  proof (cases "NewProcess maxlen pid connector prompt workDir (BufferSize (config m)) now")
    case (Inl pn)
    with False assms show ?thesis by (simp add: Create_def)
  next
    case (Inr p)
    have "Count (m\<lparr>processes := AList.update pid p (processes m)\<rparr>) \<le> Count m + 1"
      using filter_update_le[of "\<lambda>(pid, p). is_active p" pid p "processes m"]
      by (simp add: Count_def)
    with False Inr show ?thesis by (simp add: Create_def)
  qed
qed

lemma distinct_Create:
  assumes "distinct (map fst (processes m))"
  shows "distinct (map fst (processes (fst (Create maxlen pid connector prompt workDir now m))))"
  using assms by (simp add: Create_def distinct_update split: sum.splits)

lemma config_CreateAll: "config (CreateAll maxlen calls m) = config m"
proof (induction calls arbitrary: m)
  case Nil
  show ?case by simp
next
  case (Cons c calls)
  obtain pid connector prompt workDir now where c: "c = (pid, connector, prompt, workDir, now)"
    by (cases c)
  show ?case using Cons.IH by (simp add: c config_Create)
qed

lemma Count_CreateAll:
  assumes "Count m \<le> MaxConcurrent (config m)"
  shows "Count (CreateAll maxlen calls m) \<le> MaxConcurrent (config m)"
  using assms
proof (induction calls arbitrary: m)
  case Nil
  then show ?case by simp
next
  case (Cons c calls)
  obtain pid connector prompt workDir now where c: "c = (pid, connector, prompt, workDir, now)"
    by (cases c)
  let ?m1 = "fst (Create maxlen pid connector prompt workDir now m)"
  have "Count ?m1 \<le> MaxConcurrent (config ?m1)"
    using Count_Create[OF Cons.prems, of maxlen pid connector prompt workDir now]
    by (simp add: config_Create)
  from Cons.IH[OF this] show ?case by (simp add: c config_Create)
qed

lemma Count_Create_max:
  "Count (fst (Create maxlen pid connector prompt workDir now m)) \<le>
     max (Count m) (MaxConcurrent (config m))"
proof (cases "MaxConcurrent (config m) \<le> Count m")
  case True
  then show ?thesis by (simp add: Create_def)
next
  case False
  then have "Count m \<le> MaxConcurrent (config m)" by simp
  from Count_Create[OF this, of maxlen pid connector prompt workDir now]
  show ?thesis by simp
qed

lemma Count_CreateAll_max:
  "Count (CreateAll maxlen calls m) \<le> max (Count m) (MaxConcurrent (config m))"
proof (induction calls arbitrary: m)
  case Nil
  show ?case by simp
next
  case (Cons c calls)
  obtain pid connector prompt workDir now where c: "c = (pid, connector, prompt, workDir, now)"
    by (cases c)
  let ?m1 = "fst (Create maxlen pid connector prompt workDir now m)"
  have "Count (CreateAll maxlen calls ?m1) \<le> max (Count ?m1) (MaxConcurrent (config m))"
    using Cons.IH[of ?m1] by (simp add: config_Create)
  also have "\<dots> \<le> max (Count m) (MaxConcurrent (config m))"
    using Count_Create_max[of maxlen pid connector prompt workDir now m] by simp
  finally show ?case by (simp add: c)
qed

lemma distinct_CreateAll:
  assumes "distinct (map fst (processes m))"
  shows "distinct (map fst (processes (CreateAll maxlen calls m)))"
  using assms
proof (induction calls arbitrary: m)
  case Nil
  then show ?case by simp
next
  case (Cons c calls)
  obtain pid connector prompt workDir now where c: "c = (pid, connector, prompt, workDir, now)"
    by (cases c)
  from Cons.IH[OF distinct_Create[OF Cons.prems, of maxlen pid connector prompt workDir now]]
  show ?case by (simp add: c)
qed

lemma NewProcess_fields:
  assumes "NewProcess maxlen pid connector prompt workDir bufferSize now = Inr p"
  shows "Status p = StatusPending" "ID p = pid" "0 \<le> bufferSize" "bufferSize \<le> int maxlen"
  using assms
  by (auto simp: NewProcess_def NewRingBuffer_def make_slice_def split: if_splits)

lemma NewProcess_ok:
  assumes "0 \<le> bufferSize" "bufferSize \<le> int maxlen"
  shows "\<exists>p. NewProcess maxlen pid connector prompt workDir bufferSize now = Inr p"
  using assms by (simp add: NewProcess_def NewRingBuffer_def make_slice_def)

lemma Create_returns:
  assumes "snd (Create maxlen pid connector prompt workDir now m) = Returns p"
  shows "Count m < MaxConcurrent (config m)"
    and "NewProcess maxlen pid connector prompt workDir (BufferSize (config m)) now = Inr p"
    and "fst (Create maxlen pid connector prompt workDir now m) =
           m\<lparr>processes := AList.update pid p (processes m)\<rparr>"
proof -
  show c: "Count m < MaxConcurrent (config m)"
    using assms by (cases "MaxConcurrent (config m) \<le> Count m") (simp_all add: Create_def)
  show n: "NewProcess maxlen pid connector prompt workDir (BufferSize (config m)) now = Inr p"
    using assms c
    by (cases "NewProcess maxlen pid connector prompt workDir (BufferSize (config m)) now")
      (simp_all add: Create_def)
  show "fst (Create maxlen pid connector prompt workDir now m) =
           m\<lparr>processes := AList.update pid p (processes m)\<rparr>"
    using c n by (simp add: Create_def)
qed

lemma Create_admitted:
  assumes "Count m < MaxConcurrent (config m)" "0 \<le> BufferSize (config m)"
    "BufferSize (config m) \<le> int maxlen"
  shows "\<exists>p. Create maxlen pid connector prompt workDir now m =
               (m\<lparr>processes := AList.update pid p (processes m)\<rparr>, Returns p)"
proof -
  from NewProcess_ok[OF assms(2,3), of pid connector prompt workDir now]
  obtain p where "NewProcess maxlen pid connector prompt workDir (BufferSize (config m)) now = Inr p"
    by blast
  with assms(1) show ?thesis by (simp add: Create_def)
qed

lemma update_absent:
  assumes "map_of al k = None"
  shows "AList.update k v al = al @ [(k, v)]"
  using assms by (induction al) (auto split: if_splits)

lemma Count_Create_absent:
  assumes "map_of (processes m) pid = None" "is_active p"
  shows "Count (m\<lparr>processes := AList.update pid p (processes m)\<rparr>) = Count m + 1"
  using assms by (simp add: Count_def update_absent)

text \<open>
  Claim C1. The ceiling \<^verbatim>\<open>MaxConcurrent\<close> is a number of jobs, so not negative. After
  every run of create calls on a new manager the number of pending or running jobs is
  at most the ceiling (and the ids of the table are distinct, so that number counts
  jobs); from any table within the ceiling, every run of create calls stays within it.
  Whatever the ceiling and the table, a run of create calls never takes the count
  above the larger of the ceiling and the count it started from.
  A create call made when the count is at or above the ceiling answers
  \<open>ErrMaxConcurrent\<close> and leaves the manager as it was. A create call that returns a job
  was made below the ceiling, leaves the count within the ceiling, and its job is
  pending and stored under its id. A create call made below the ceiling, with a buffer
  size that \<^verbatim>\<open>make\<close> accepts, returns a job. The body runs under the lock of the
  manager, so two calls come one after the other: when the first fills the last
  place (its id new to the table), the second answers \<open>ErrMaxConcurrent\<close>.
\<close>

theorem Create_respects_ceiling:
  "(0 \<le> MaxConcurrent cfg \<longrightarrow>
      Count (CreateAll maxlen calls (NewManager cfg)) \<le> MaxConcurrent cfg \<and>
      distinct (map fst (processes (CreateAll maxlen calls (NewManager cfg))))) \<and>
   (Count m \<le> MaxConcurrent (config m) \<longrightarrow>
      Count (CreateAll maxlen calls m) \<le> MaxConcurrent (config m)) \<and>
   Count (CreateAll maxlen calls m) \<le> max (Count m) (MaxConcurrent (config m)) \<and>
   (MaxConcurrent (config m) \<le> Count m \<longrightarrow>
      Create maxlen pid connector prompt workDir now m = (m, Fails ErrMaxConcurrent)) \<and>
   (\<forall>p. snd (Create maxlen pid connector prompt workDir now m) = Returns p \<longrightarrow>
      Count m < MaxConcurrent (config m) \<and>
      Count (fst (Create maxlen pid connector prompt workDir now m)) \<le> MaxConcurrent (config m) \<and>
      Status p = StatusPending \<and>
      Get pid (fst (Create maxlen pid connector prompt workDir now m)) = Inr p) \<and>
   (Count m < MaxConcurrent (config m) \<and> 0 \<le> BufferSize (config m) \<and>
    BufferSize (config m) \<le> int maxlen \<longrightarrow>
      (\<exists>p. snd (Create maxlen pid connector prompt workDir now m) = Returns p)) \<and>
   (\<forall>p. Count m + 1 = MaxConcurrent (config m) \<and> map_of (processes m) pid = None \<and>
        snd (Create maxlen pid connector prompt workDir now m) = Returns p \<longrightarrow>
        Create maxlen pid' connector' prompt' workDir' now'
            (fst (Create maxlen pid connector prompt workDir now m)) =
          (fst (Create maxlen pid connector prompt workDir now m), Fails ErrMaxConcurrent))"
proof -
  let ?m1 = "fst (Create maxlen pid connector prompt workDir now m)"
  have a: "Count (CreateAll maxlen calls (NewManager cfg)) \<le> MaxConcurrent cfg \<and>
      distinct (map fst (processes (CreateAll maxlen calls (NewManager cfg))))"
    if "0 \<le> MaxConcurrent cfg"
  proof -
    have "Count (NewManager cfg) \<le> MaxConcurrent (config (NewManager cfg))"
      using that by (simp add: NewManager_def Count_def)
    from Count_CreateAll[OF this, of maxlen calls]
    have "Count (CreateAll maxlen calls (NewManager cfg)) \<le> MaxConcurrent cfg"
      by (simp add: NewManager_def)
    moreover have "distinct (map fst (processes (NewManager cfg)))"
      by (simp add: NewManager_def)
    from distinct_CreateAll[OF this, of maxlen calls]
    have "distinct (map fst (processes (CreateAll maxlen calls (NewManager cfg))))" .
    ultimately show ?thesis by (intro conjI)
  qed
  have b: "Count m \<le> MaxConcurrent (config m) \<longrightarrow>
      Count (CreateAll maxlen calls m) \<le> MaxConcurrent (config m)"
    using Count_CreateAll[of m maxlen calls] by blast
  have c: "MaxConcurrent (config m) \<le> Count m \<longrightarrow>
      Create maxlen pid connector prompt workDir now m = (m, Fails ErrMaxConcurrent)"
    using Create_refused[of m maxlen pid connector prompt workDir now] by blast
  have d: "Count m < MaxConcurrent (config m) \<and>
      Count ?m1 \<le> MaxConcurrent (config m) \<and>
      Status p = StatusPending \<and> Get pid ?m1 = Inr p"
    if r: "snd (Create maxlen pid connector prompt workDir now m) = Returns p" for p
  proof -
    note cr = Create_returns[OF r]
    from cr(1) have "Count m \<le> MaxConcurrent (config m)" by simp
    from Count_Create[OF this, of maxlen pid connector prompt workDir now]
    have d2: "Count ?m1 \<le> MaxConcurrent (config m)" .
    have d3: "Status p = StatusPending" using NewProcess_fields(1)[OF cr(2)] .
    have d4: "Get pid ?m1 = Inr p" unfolding cr(3) by (simp add: Get_def update_conv')
    from cr(1) d2 d3 d4 show ?thesis by (intro conjI)
  qed
  have e: "Count m < MaxConcurrent (config m) \<and> 0 \<le> BufferSize (config m) \<and>
    BufferSize (config m) \<le> int maxlen \<longrightarrow>
      (\<exists>p. snd (Create maxlen pid connector prompt workDir now m) = Returns p)"
  proof
    assume h: "Count m < MaxConcurrent (config m) \<and> 0 \<le> BufferSize (config m) \<and>
      BufferSize (config m) \<le> int maxlen"
    then have h1: "Count m < MaxConcurrent (config m)" and h2: "0 \<le> BufferSize (config m)"
      and h3: "BufferSize (config m) \<le> int maxlen" by simp_all
    from Create_admitted[OF h1 h2 h3, of pid connector prompt workDir now]
    obtain p where "Create maxlen pid connector prompt workDir now m =
               (m\<lparr>processes := AList.update pid p (processes m)\<rparr>, Returns p)" by blast
    then have "snd (Create maxlen pid connector prompt workDir now m) = Returns p" by simp
    then show "\<exists>p. snd (Create maxlen pid connector prompt workDir now m) = Returns p" ..
  qed
  have f: "Create maxlen pid' connector' prompt' workDir' now' ?m1 = (?m1, Fails ErrMaxConcurrent)"
    if h: "Count m + 1 = MaxConcurrent (config m) \<and> map_of (processes m) pid = None \<and>
        snd (Create maxlen pid connector prompt workDir now m) = Returns p" for p
  proof -
    from h have r: "snd (Create maxlen pid connector prompt workDir now m) = Returns p"
      and ab: "map_of (processes m) pid = None"
      and cn: "Count m + 1 = MaxConcurrent (config m)" by simp_all
    note cr = Create_returns[OF r]
    have "is_active p" using NewProcess_fields(1)[OF cr(2)] by (simp add: is_active_def)
    from Count_Create_absent[OF ab this] cn
    have "MaxConcurrent (config ?m1) \<le> Count ?m1" unfolding cr(3) by simp
    then show ?thesis by (rule Create_refused)
  qed
  note g = Count_CreateAll_max[of maxlen calls m]
  from a b g c d e f show ?thesis by blast
qed

lemmas eval_defs = Create_def NewManager_def Count_def NewProcess_def NewRingBuffer_def
  make_slice_def is_active_def Status_defs Get_def Manager_Stop_def Remove_def

text \<open>Ceiling 1 and two create calls: the first returns a job, the second is refused.\<close>

theorem Create_respects_ceiling_witness:
  "Count (CreateAll 1000 [(''a'', ''claude'', ''hi'', [], 0), (''b'', ''claude'', ''yo'', [], 1)]
       (NewManager \<lparr>DefaultTimeout = 300, MaxConcurrent = 1, CleanupDelay = 5, BufferSize = 2\<rparr>)) \<le> 1 \<and>
   (\<exists>p. snd (Create 1000 ''a'' ''claude'' ''hi'' [] 0
       (NewManager \<lparr>DefaultTimeout = 300, MaxConcurrent = 1, CleanupDelay = 5, BufferSize = 2\<rparr>))
       = Returns p \<and> Status p = StatusPending) \<and>
   snd (Create 1000 ''b'' ''claude'' ''yo'' [] 1
     (fst (Create 1000 ''a'' ''claude'' ''hi'' [] 0
       (NewManager \<lparr>DefaultTimeout = 300, MaxConcurrent = 1, CleanupDelay = 5, BufferSize = 2\<rparr>))))
     = Fails ErrMaxConcurrent"
proof -
  let ?cfg = "\<lparr>DefaultTimeout = 300, MaxConcurrent = 1, CleanupDelay = 5, BufferSize = 2\<rparr>"
  let ?m0 = "NewManager ?cfg"
  let ?m1 = "fst (Create 1000 ''a'' ''claude'' ''hi'' [] 0 ?m0)"
  have h1: "0 \<le> MaxConcurrent ?cfg" by simp
  have h5: "Count ?m0 < MaxConcurrent (config ?m0) \<and> 0 \<le> BufferSize (config ?m0) \<and>
    BufferSize (config ?m0) \<le> int 1000" by (simp add: NewManager_def Count_def)
  have h6: "Count ?m0 + 1 = MaxConcurrent (config ?m0) \<and> map_of (processes ?m0) ''a'' = None"
    by (simp add: NewManager_def Count_def)
  note t = Create_respects_ceiling
    [where cfg = ?cfg and maxlen = 1000
       and calls = "[(''a'', ''claude'', ''hi'', [], 0), (''b'', ''claude'', ''yo'', [], 1)]"
       and m = ?m0 and pid = "''a''" and connector = "''claude''" and prompt = "''hi''"
       and workDir = "[]" and now = 0
       and pid' = "''b''" and connector' = "''claude''" and prompt' = "''yo''"
       and workDir' = "[]" and now' = 1]
  from t h1 have a: "Count (CreateAll 1000
       [(''a'', ''claude'', ''hi'', [], 0), (''b'', ''claude'', ''yo'', [], 1)] ?m0)
       \<le> MaxConcurrent ?cfg" by blast
  from t h5 obtain p where r: "snd (Create 1000 ''a'' ''claude'' ''hi'' [] 0 ?m0) = Returns p"
    by blast
  from t r have b: "Status p = StatusPending" by blast
  from t h6 r have c: "Create 1000 ''b'' ''claude'' ''yo'' [] 1 ?m1 = (?m1, Fails ErrMaxConcurrent)"
    by blast
  from a r b c show ?thesis by auto
qed

section \<open>Proofs: the cleanup sweep\<close>

lemma map_of_filter_value:
  assumes "distinct (map fst al)"
  shows "map_of (filter (\<lambda>(k, v). Q v) al) k =
           (case map_of al k of None \<Rightarrow> None | Some v \<Rightarrow> if Q v then Some v else None)"
  using assms
proof (induction al)
  case Nil
  show ?case by simp
next
  case (Cons a al)
  obtain k' v' where a: "a = (k', v')" by (cases a)
  from Cons.prems a have nk: "map_of al k' = None" and d: "distinct (map fst al)"
    by (auto simp: map_of_eq_None_iff)
  show ?case
  proof (cases "k = k'")
    case True
    with nk Cons.IH[OF d] show ?thesis by (simp add: a)
  next
    case False
    with Cons.IH[OF d] show ?thesis by (simp add: a)
  qed
qed

lemma swept_iff:
  "swept now T p \<longleftrightarrow>
     (Status p = StatusCompleted \<or> Status p = StatusFailed \<or> Status p = StatusStopped) \<and>
     (\<exists>t. CompletedAt p = Some t \<and> T \<le> Time_Sub now t)"
  by (auto simp: swept_def split: option.splits)

lemma Time_Sub_ge:
  assumes "minDuration < T" "T \<le> maxDuration"
  shows "T \<le> Time_Sub now t \<longleftrightarrow> t + T \<le> now"
  using assms unfolding Time_Sub_def by auto

lemma Get_cleanup:
  assumes "distinct (map fst (processes m))"
  shows "Get pid (cleanup now m) =
           (case Get pid m of
              Inl e \<Rightarrow> Inl e
            | Inr p \<Rightarrow> if swept now (CleanupDelay (config m)) p then Inl ErrProcessNotFound
                       else Inr p)"
  using map_of_filter_value[OF assms, of "\<lambda>p. \<not> swept now (CleanupDelay (config m)) p" pid]
  by (simp add: Get_def cleanup_def split: option.splits)

lemma config_cleanup: "config (cleanup now m) = config m"
  by (simp add: cleanup_def)

lemma distinct_cleanup:
  assumes "distinct (map fst (processes m))"
  shows "distinct (map fst (processes (cleanup now m)))"
  using assms by (simp add: cleanup_def distinct_map_filter)

lemma fold_cleanup_keeps:
  assumes "distinct (map fst (processes m))" "Get pid m = Inr p"
    "\<forall>x \<in> set ts. \<not> swept x (CleanupDelay (config m)) p"
  shows "Get pid (fold cleanup ts m) = Inr p"
  using assms
proof (induction ts arbitrary: m)
  case Nil
  then show ?case by simp
next
  case (Cons x ts)
  have g: "Get pid (cleanup x m) = Inr p"
    using Get_cleanup[OF Cons.prems(1), of pid x] Cons.prems(2,3) by simp
  from Cons.IH[OF distinct_cleanup[OF Cons.prems(1)] g] Cons.prems(3)
  show ?case by (simp add: config_cleanup)
qed

lemma fold_cleanup_absent:
  assumes "distinct (map fst (processes m))" "Get pid m = Inl ErrProcessNotFound"
  shows "Get pid (fold cleanup ts m) = Inl ErrProcessNotFound"
  using assms
proof (induction ts arbitrary: m)
  case Nil
  then show ?case by simp
next
  case (Cons x ts)
  have g: "Get pid (cleanup x m) = Inl ErrProcessNotFound"
    using Get_cleanup[OF Cons.prems(1), of pid x] Cons.prems(2) by simp
  from Cons.IH[OF distinct_cleanup[OF Cons.prems(1)] g]
  show ?case by simp
qed

lemma fold_cleanup_sweeps:
  assumes "distinct (map fst (processes m))" "Get pid m = Inr p"
    "\<exists>x \<in> set ts. swept x (CleanupDelay (config m)) p"
  shows "Get pid (fold cleanup ts m) = Inl ErrProcessNotFound"
  using assms
proof (induction ts arbitrary: m)
  case Nil
  then show ?case by simp
next
  case (Cons x ts)
  note d = distinct_cleanup[OF Cons.prems(1), of x]
  show ?case
  proof (cases "swept x (CleanupDelay (config m)) p")
    case True
    have "Get pid (cleanup x m) = Inl ErrProcessNotFound"
      using Get_cleanup[OF Cons.prems(1), of pid x] Cons.prems(2) True by simp
    from fold_cleanup_absent[OF d this, of ts] show ?thesis by simp
  next
    case False
    have g: "Get pid (cleanup x m) = Inr p"
      using Get_cleanup[OF Cons.prems(1), of pid x] Cons.prems(2) False by simp
    from Cons.prems(3) False
    have "\<exists>y \<in> set ts. swept y (CleanupDelay (config (cleanup x m))) p"
      by (auto simp: config_cleanup)
    from Cons.IH[OF d g this] show ?thesis by simp
  qed
qed

lemma sweep_times_le:
  assumes "x \<in> set (sweep_times t0 d at delays)"
  shows "x \<le> at"
  using set_takeWhileD[OF assms[unfolded sweep_times_def]] by simp

lemma StartCleanup_at:
  assumes "0 < CleanupDelay (config m)"
  shows "StartCleanup t0 at delays m =
           Inr (fold cleanup (sweep_times t0 (CleanupDelay (config m)) at delays) m)"
  using assms by (simp add: StartCleanup_def)

lemma stopped_job_table:
  assumes "NewProcess 1000 ''a'' ''claude'' ''hi'' [] (BufferSize cfg) 0 = Inr p"
    "0 < MaxConcurrent cfg"
  shows "fst (Manager_Stop ''a'' t (fst (Create 1000 ''a'' ''claude'' ''hi'' [] 0 (NewManager cfg))))
         = \<lparr>processes = [(''a'', Stop t p)], config = cfg\<rparr>"
  using assms by (simp add: Create_def NewManager_def Count_def Manager_Stop_def)

lemma sweep_times_example: "sweep_times 0 5000000000 7000000000 [1000] = [5000001000]"
  by code_simp

lemma sweep_times_0_5_11: "sweep_times 0 5 11 [0, 0] = [5, 10]"
  by code_simp

text \<open>
  Claim C9, as stated, fails at \<open>t + T + \<epsilon>\<close>. Times in nanoseconds: with the interval
  \<open>T\<close> of 5 seconds and the ticker started at 0, a job stopped at \<open>t\<close>, 1 second, is
  still retrievable at 7 seconds, after \<open>t + T\<close>. The one sweep so far, a microsecond
  after the tick at 5 seconds, came too early for it, and the next tick is at 10
  seconds.
\<close>

theorem cleanup_waits_for_tick_counterexample:
  "(case StartCleanup 0 7000000000 [1000]
      (fst (Manager_Stop ''a'' 1000000000 (fst (Create 1000 ''a'' ''claude'' ''hi'' [] 0
           (NewManager \<lparr>DefaultTimeout = 300000000000, MaxConcurrent = 1,
              CleanupDelay = 5000000000, BufferSize = 2\<rparr>))))) of
      Inl e \<Rightarrow> False
    | Inr m' \<Rightarrow>
        (case Get ''a'' m' of
           Inl e \<Rightarrow> False
         | Inr p \<Rightarrow> Status p = StatusStopped \<and> CompletedAt p = Some 1000000000 \<and>
             1000000000 + 5000000000 < (7000000000::int)))"
proof -
  let ?cfg = "\<lparr>DefaultTimeout = 300000000000, MaxConcurrent = 1,
              CleanupDelay = 5000000000, BufferSize = 2\<rparr>"
  obtain p where np: "NewProcess 1000 ''a'' ''claude'' ''hi'' [] (BufferSize ?cfg) 0 = Inr p"
    and st: "Status p = StatusPending"
    by (simp add: NewProcess_def NewRingBuffer_def make_slice_def)
  have mc: "0 < MaxConcurrent ?cfg" by simp
  have s: "Status (Stop 1000000000 p) = StatusStopped"
    "CompletedAt (Stop 1000000000 p) = Some 1000000000"
    using st by (simp_all add: Stop_fields is_active_def)
  have "Time_Sub 5000001000 1000000000 = 4000001000"
    by (simp add: Time_Sub_def minDuration_def maxDuration_def)
  then have "\<not> swept 5000001000 5000000000 (Stop 1000000000 p)"
    using s by (simp add: swept_iff)
  then show ?thesis
    using s unfolding stopped_job_table[OF np mc]
    by (simp add: StartCleanup_def sweep_times_example cleanup_def Get_def)
qed

text \<open>
  Claim C9, amended. In a table with distinct ids, a sweep that reads the clock at
  \<open>now\<close> removes exactly the jobs whose status is completed, failed or stopped and whose
  \<open>CompletedAt\<close> is set, with \<^verbatim>\<open>now.Sub\<close> of it at least the cleanup interval; every
  other job, pending, running, completed more recently or without \<open>CompletedAt\<close>, is
  still retrievable. For an interval \<open>T\<close> above the least \<^verbatim>\<open>Duration\<close> that is:
  \<open>CompletedAt + T \<le> now\<close>. For a terminal job completed at \<open>t\<close>, with such an interval:
  after any sweeps that all read the clock before \<open>t + T\<close> the job is still
  retrievable, and after sweeps one of which reads it at or after \<open>t + T\<close> the job is
  absent. The sweeps of \<open>StartCleanup\<close> come after the ticks of its ticker only: at any
  time before \<open>t + T\<close> the job is retrievable, and it is absent once one of these
  sweeps has read the clock at or after \<open>t + T\<close>; at a time after \<open>t + T\<close> it may be
  either.
\<close>

theorem cleanup_removes_old_terminal_jobs:
  assumes "distinct (map fst (processes m))"
  shows
  "(\<forall>pid. Get pid (cleanup now m) =
      (case Get pid m of
         Inl e \<Rightarrow> Inl e
       | Inr p \<Rightarrow>
           if (Status p = StatusCompleted \<or> Status p = StatusFailed \<or> Status p = StatusStopped) \<and>
              (\<exists>t. CompletedAt p = Some t \<and> CleanupDelay (config m) \<le> Time_Sub now t)
           then Inl ErrProcessNotFound else Inr p)) \<and>
   (minDuration < CleanupDelay (config m) \<and> CleanupDelay (config m) \<le> maxDuration \<longrightarrow>
      (\<forall>t. CleanupDelay (config m) \<le> Time_Sub now t \<longleftrightarrow> t + CleanupDelay (config m) \<le> now)) \<and>
   (\<forall>pid p t. Get pid m = Inr p \<and> CompletedAt p = Some t \<and>
        (Status p = StatusCompleted \<or> Status p = StatusFailed \<or> Status p = StatusStopped) \<and>
        minDuration < CleanupDelay (config m) \<and> CleanupDelay (config m) \<le> maxDuration \<longrightarrow>
      (\<forall>ts. (\<forall>x \<in> set ts. x < t + CleanupDelay (config m)) \<longrightarrow>
         Get pid (fold cleanup ts m) = Inr p) \<and>
      (\<forall>ts. (\<exists>x \<in> set ts. t + CleanupDelay (config m) \<le> x) \<longrightarrow>
         Get pid (fold cleanup ts m) = Inl ErrProcessNotFound) \<and>
      (\<forall>t0 at delays. 0 < CleanupDelay (config m) \<and> at < t + CleanupDelay (config m) \<longrightarrow>
         (\<exists>m'. StartCleanup t0 at delays m = Inr m' \<and> Get pid m' = Inr p)) \<and>
      (\<forall>t0 at delays. 0 < CleanupDelay (config m) \<and>
           (\<exists>x \<in> set (sweep_times t0 (CleanupDelay (config m)) at delays).
              t + CleanupDelay (config m) \<le> x) \<longrightarrow>
         (\<exists>m'. StartCleanup t0 at delays m = Inr m' \<and> Get pid m' = Inl ErrProcessNotFound)))"
proof -
  let ?T = "CleanupDelay (config m)"
  have one: "Get pid (cleanup now m) =
      (case Get pid m of
         Inl e \<Rightarrow> Inl e
       | Inr p \<Rightarrow>
           if (Status p = StatusCompleted \<or> Status p = StatusFailed \<or> Status p = StatusStopped) \<and>
              (\<exists>t. CompletedAt p = Some t \<and> ?T \<le> Time_Sub now t)
           then Inl ErrProcessNotFound else Inr p)" for pid
  proof (cases "Get pid m")
    case (Inl e)
    with Get_cleanup[OF assms, of pid now] show ?thesis by simp
  next
    case (Inr p)
    with Get_cleanup[OF assms, of pid now] show ?thesis by (simp add: swept_iff)
  qed
  have sub: "minDuration < ?T \<and> ?T \<le> maxDuration \<longrightarrow>
      (\<forall>t. ?T \<le> Time_Sub now t \<longleftrightarrow> t + ?T \<le> now)"
    using Time_Sub_ge[of ?T now] by blast
  have two: "(\<forall>ts. (\<forall>x \<in> set ts. x < t + ?T) \<longrightarrow> Get pid (fold cleanup ts m) = Inr p) \<and>
      (\<forall>ts. (\<exists>x \<in> set ts. t + ?T \<le> x) \<longrightarrow>
         Get pid (fold cleanup ts m) = Inl ErrProcessNotFound) \<and>
      (\<forall>t0 at delays. 0 < ?T \<and> at < t + ?T \<longrightarrow>
         (\<exists>m'. StartCleanup t0 at delays m = Inr m' \<and> Get pid m' = Inr p)) \<and>
      (\<forall>t0 at delays. 0 < ?T \<and> (\<exists>x \<in> set (sweep_times t0 ?T at delays). t + ?T \<le> x) \<longrightarrow>
         (\<exists>m'. StartCleanup t0 at delays m = Inr m' \<and> Get pid m' = Inl ErrProcessNotFound))"
    if h: "Get pid m = Inr p \<and> CompletedAt p = Some t \<and>
        (Status p = StatusCompleted \<or> Status p = StatusFailed \<or> Status p = StatusStopped) \<and>
        minDuration < ?T \<and> ?T \<le> maxDuration"
    for pid p t
  proof -
    from h have g: "Get pid m = Inr p" by simp
    from h have r1: "minDuration < ?T" and r2: "?T \<le> maxDuration" by simp_all
    from h have sw: "swept x ?T p \<longleftrightarrow> t + ?T \<le> x" for x
      using Time_Sub_ge[OF r1 r2, of x t] by (auto simp: swept_iff)
    have a: "Get pid (fold cleanup ts m) = Inr p" if "\<forall>x \<in> set ts. x < t + ?T" for ts
    proof -
      from that have "\<forall>x \<in> set ts. \<not> swept x ?T p" by (auto simp: sw)
      from fold_cleanup_keeps[OF assms g this] show ?thesis .
    qed
    have b: "Get pid (fold cleanup ts m) = Inl ErrProcessNotFound"
      if "\<exists>x \<in> set ts. t + ?T \<le> x" for ts
    proof -
      from that have "\<exists>x \<in> set ts. swept x ?T p" by (simp add: sw)
      from fold_cleanup_sweeps[OF assms g this] show ?thesis .
    qed
    have c: "\<exists>m'. StartCleanup t0 at delays m = Inr m' \<and> Get pid m' = Inr p"
      if "0 < ?T \<and> at < t + ?T" for t0 at delays
    proof -
      from that have pos: "0 < ?T" and lt: "at < t + ?T" by simp_all
      have "\<forall>x \<in> set (sweep_times t0 ?T at delays). x < t + ?T"
        using sweep_times_le[of _ t0 ?T at delays] lt by fastforce
      from a[OF this] StartCleanup_at[OF pos, of t0 at delays] show ?thesis by simp
    qed
    have d: "\<exists>m'. StartCleanup t0 at delays m = Inr m' \<and> Get pid m' = Inl ErrProcessNotFound"
      if "0 < ?T \<and> (\<exists>x \<in> set (sweep_times t0 ?T at delays). t + ?T \<le> x)" for t0 at delays
    proof -
      from that have pos: "0 < ?T"
        and ex: "\<exists>x \<in> set (sweep_times t0 ?T at delays). t + ?T \<le> x" by simp_all
      from b[OF ex] StartCleanup_at[OF pos, of t0 at delays] show ?thesis by simp
    qed
    from a b c d show ?thesis by blast
  qed
  from one sub two show ?thesis by blast
qed

text \<open>
  A job stopped at 1 and the interval 5: sweeps that read the clock at 5 and at 6, and
  the sweeps of a ticker started at 0 as they stand at 5 and at 11.
\<close>

theorem cleanup_removes_old_terminal_jobs_witness:
  "(case NewProcess 1000 ''a'' ''claude'' ''hi'' [] 2 0 of
      Inl pn \<Rightarrow> False
    | Inr p \<Rightarrow>
       (let m = \<lparr>processes = [(''a'', Stop 1 p)],
                 config = \<lparr>DefaultTimeout = 300, MaxConcurrent = 1, CleanupDelay = 5, BufferSize = 2\<rparr>\<rparr>
        in Get ''a'' (cleanup 5 m) = Inr (Stop 1 p) \<and>
           Get ''a'' (cleanup 6 m) = Inl ErrProcessNotFound \<and>
           (\<exists>m'. StartCleanup 0 5 [0] m = Inr m' \<and> Get ''a'' m' = Inr (Stop 1 p)) \<and>
           (\<exists>m'. StartCleanup 0 11 [0, 0] m = Inr m' \<and> Get ''a'' m' = Inl ErrProcessNotFound)))"
proof -
  obtain p where np: "NewProcess 1000 ''a'' ''claude'' ''hi'' [] 2 0 = Inr p"
    and st: "Status p = StatusPending"
    by (simp add: NewProcess_def NewRingBuffer_def make_slice_def)
  let ?m = "\<lparr>processes = [(''a'', Stop 1 p)],
       config = \<lparr>DefaultTimeout = 300, MaxConcurrent = 1, CleanupDelay = 5, BufferSize = 2\<rparr>\<rparr>"
  have s: "Status (Stop 1 p) = StatusStopped" "CompletedAt (Stop 1 p) = Some 1"
    using st by (simp_all add: Stop_fields is_active_def)
  have d: "distinct (map fst (processes ?m))" by simp
  have g: "Get ''a'' ?m = Inr (Stop 1 p)" by (simp add: Get_def)
  have T: "CleanupDelay (config ?m) = 5" by simp
  have r: "minDuration < (5::int) \<and> (5::int) \<le> maxDuration"
    by (simp add: minDuration_def maxDuration_def)
  note t5 = cleanup_removes_old_terminal_jobs [OF d, of 5]
  note t6 = cleanup_removes_old_terminal_jobs [OF d, of 6]
  have e5: "\<not> 5 \<le> Time_Sub 5 1"
    using t5 [THEN conjunct2, THEN conjunct1, rule_format, of 1] r unfolding T by simp
  have e6: "5 \<le> Time_Sub 6 1"
    using t6 [THEN conjunct2, THEN conjunct1, rule_format, of 1] r unfolding T by simp
  have a: "Get ''a'' (cleanup 5 ?m) = Inr (Stop 1 p)"
    using t5 [THEN conjunct1, rule_format, of "''a''"] s e5 unfolding g T by simp
  have b: "Get ''a'' (cleanup 6 ?m) = Inl ErrProcessNotFound"
    using t6 [THEN conjunct1, rule_format, of "''a''"] s e6 unfolding g T by simp
  have h: "Get ''a'' ?m = Inr (Stop 1 p) \<and> CompletedAt (Stop 1 p) = Some 1 \<and>
        (Status (Stop 1 p) = StatusCompleted \<or> Status (Stop 1 p) = StatusFailed \<or>
         Status (Stop 1 p) = StatusStopped) \<and>
        minDuration < CleanupDelay (config ?m) \<and> CleanupDelay (config ?m) \<le> maxDuration"
    using g s r unfolding T by simp
  note sc = t5 [THEN conjunct2, THEN conjunct2, rule_format, OF h]
  have c: "\<exists>m'. StartCleanup 0 5 [0] ?m = Inr m' \<and> Get ''a'' m' = Inr (Stop 1 p)"
    using sc [THEN conjunct2, THEN conjunct2, THEN conjunct1, rule_format, of 5 0 "[0]"]
    unfolding T by simp
  have e: "\<exists>m'. StartCleanup 0 11 [0, 0] ?m = Inr m' \<and> Get ''a'' m' = Inl ErrProcessNotFound"
    using sc [THEN conjunct2, THEN conjunct2, THEN conjunct2, rule_format, of 0 11 "[0, 0]"]
    unfolding T sweep_times_0_5_11 by simp
  from a b c e show ?thesis unfolding np sum.case Let_def by (intro conjI)
qed

section \<open>Proofs: trimming\<close>

text \<open>
  The rounds given to the two loops of \<open>TrimSpace\<close> are enough: what \<open>TrimLeft\<close>
  returns starts with no white space, what \<open>TrimRight\<close> returns ends with none.
\<close>

lemma lead_space_le: "lead_space s \<le> length s"
proof (cases "filter (\<lambda>e. take (length e) s = e) space_encodings")
  case Nil
  then show ?thesis by (simp add: lead_space_def)
next
  case (Cons e es)
  then have "e \<in> set (filter (\<lambda>e. take (length e) s = e) space_encodings)" by simp
  then have "take (length e) s = e" by simp
  then have "length (take (length e) s) = length e" by simp
  then have "length e \<le> length s" by simp
  with Cons show ?thesis by (simp add: lead_space_def)
qed

lemma trail_space_le: "trail_space s \<le> length s"
proof (cases "filter (\<lambda>e. length e \<le> length s \<and> drop (length s - length e) s = e) space_encodings")
  case Nil
  then show ?thesis by (simp add: trail_space_def)
next
  case (Cons e es)
  then have "e \<in> set (filter (\<lambda>e. length e \<le> length s \<and> drop (length s - length e) s = e)
      space_encodings)" by simp
  then have "length e \<le> length s" by simp
  with Cons show ?thesis by (simp add: trail_space_def)
qed

lemma lead_space_Nil: "lead_space [] = 0"
  by (simp add: lead_space_def space_encodings_def)

lemma trail_space_Nil: "trail_space [] = 0"
  by (simp add: trail_space_def space_encodings_def)

lemma TrimLeft_done:
  assumes "length s \<le> n"
  shows "lead_space (TrimLeft n s) = 0"
  using assms
proof (induction n arbitrary: s)
  case 0
  then show ?case by (simp add: lead_space_Nil)
next
  case (Suc n)
  show ?case
  proof (cases "lead_space s = 0")
    case True
    then show ?thesis by simp
  next
    case False
    with Suc.prems lead_space_le[of s] have "length (drop (lead_space s) s) \<le> n" by simp
    from Suc.IH[OF this] False show ?thesis by simp
  qed
qed

lemma TrimRight_done:
  assumes "length s \<le> n"
  shows "trail_space (TrimRight n s) = 0"
  using assms
proof (induction n arbitrary: s)
  case 0
  then show ?case by (simp add: trail_space_Nil)
next
  case (Suc n)
  show ?case
  proof (cases "trail_space s = 0")
    case True
    then show ?thesis by simp
  next
    case False
    with Suc.prems trail_space_le[of s]
    have "length (take (length s - trail_space s) s) \<le> n" by simp
    from Suc.IH[OF this] False show ?thesis by simp
  qed
qed

lemma TrimSpace_trimmed:
  "trail_space (TrimSpace s) = 0"
  by (simp add: TrimSpace_def Let_def TrimRight_done)


section \<open>Proofs: events of a job\<close>

lemma notify_keys: "map fst (notify e subs) = map fst subs"
  by (induction subs) auto

lemma map_of_notify: "map_of (notify e subs) sid = map_option (send_nb e) (map_of subs sid)"
  by (induction subs) auto

lemma set_notify: "set (notify e subs) = (\<lambda>(sid, ch). (sid, send_nb e ch)) ` set subs"
  by (induction subs) auto

lemma set_update_cases:
  assumes "x \<in> set (AList.update k v al)"
  shows "x = (k, v) \<or> x \<in> set al"
  using assms by (induction al) (auto split: if_splits)

lemma set_delete_subset: "set (AList.delete k al) \<subseteq> set al"
  by (auto simp: AList.delete_eq)

lemma chans_in_notify:
  assumes "chans_in K subs" "Type e \<in> K"
  shows "chans_in K (notify e subs)"
  using assms by (fastforce simp: chans_in_def set_notify send_nb_def split: if_splits)

lemma chans_in_update:
  assumes "chans_in K subs" "\<forall>e \<in> set (buf ch). Type e \<in> K"
  shows "chans_in K (AList.update sid ch subs)"
  unfolding chans_in_def
proof (intro ballI, clarify)
  fix s c e assume a: "(s, c) \<in> set (AList.update sid ch subs)" "e \<in> set (buf c)"
  from set_update_cases[OF a(1)] have "(s, c) = (sid, ch) \<or> (s, c) \<in> set subs" .
  with a(2) assms show "Type e \<in> K" by (auto simp: chans_in_def)
qed

lemma chans_in_delete:
  assumes "chans_in K subs"
  shows "chans_in K (AList.delete sid subs)"
  using assms set_delete_subset[of sid subs] by (fastforce simp: chans_in_def)

lemma set_last_n: "set (last_n c xs) \<subseteq> set xs"
  by (simp add: last_n_def set_drop_subset)

lemma AddEvent_holds:
  assumes "rb_holds c (events p) ys" "0 < c"
  shows "\<exists>rb. AddEvent e p = Inr (p\<lparr>events := rb, subscribers := notify e (subscribers p)\<rparr>) \<and>
              rb_holds c rb (last_n c (ys @ [e]))"
proof -
  from Push_holds[OF assms, of e] obtain rb where
    "Push e (events p) = Inr rb" "rb_holds c rb (last_n c (ys @ [e]))" by blast
  then show ?thesis by (auto simp: AddEvent_def)
qed

lemma AddEvent_empty:
  assumes "data (events p) = []"
  shows "AddEvent e p = Inl IndexOutOfRange"
  using assms Push_zero_capacity[of "events p" e] by (simp add: AddEvent_def)

lemma AddEvent_inv:
  assumes "job_inv c K p" "Type e \<in> K" "AddEvent e p = Inr p'"
  shows "job_inv c K p'"
proof (cases "0 < c")
  case True
  with assms(1) obtain ys where h: "rb_holds c (events p) ys" and k: "\<forall>e \<in> set ys. Type e \<in> K"
    and ch: "chans_in K (subscribers p)"
    by (auto simp: job_inv_def)
  from AddEvent_holds[OF h True, of e] assms(3) obtain rb where
    p': "p' = p\<lparr>events := rb, subscribers := notify e (subscribers p)\<rparr>"
    and h': "rb_holds c rb (last_n c (ys @ [e]))" by auto
  have "\<forall>x \<in> set (last_n c (ys @ [e])). Type x \<in> K"
    using set_last_n[of c "ys @ [e]"] k assms(2) by auto
  with h' chans_in_notify[OF ch assms(2)] True show ?thesis
    by (auto simp: job_inv_def p')
next
  case False
  with assms(1) have "data (events p) = []" by (simp add: job_inv_def)
  from AddEvent_empty[OF this, of e] assms(3) show ?thesis by simp
qed

lemma AddEvent_total:
  assumes "job_inv c K p" "0 < c"
  shows "\<exists>p'. AddEvent e p = Inr p'"
proof -
  from assms obtain ys where h: "rb_holds c (events p) ys" by (auto simp: job_inv_def)
  from AddEvent_holds[OF h assms(2), of e] show ?thesis by blast
qed

lemma job_inv_cong:
  assumes "job_inv c K p" "events p' = events p" "subscribers p' = subscribers p"
  shows "job_inv c K p'"
  using assms by (simp add: job_inv_def)

lemma ParseLine_kind:
  assumes "fst (ParseLine u line) = Some e"
  shows "Type e = ''stream'' \<or> Type e = ''result''"
  using assms
  by (auto simp: ParseLine_def Let_def split: if_splits option.splits json.splits)

lemma ParseLine_no_error: "snd (ParseLine u line) = None"
  by (auto simp: ParseLine_def Let_def split: if_splits option.splits json.splits)

lemma stream_line_alt:
  "stream_line u line now p =
     (case fst (ParseLine u line) of
        None \<Rightarrow> Inr p
      | Some e0 \<Rightarrow>
          (case AddEvent (e0\<lparr>Timestamp := now\<rparr>) p of
             Inl pn \<Rightarrow> Inl pn
           | Inr p1 \<Rightarrow>
               Inr (if Type e0 = ''result'' then SetResultData (Data e0) now p1 else p1)))"
proof -
  obtain ev err where pl: "ParseLine u line = (ev, err)" by (cases "ParseLine u line")
  with ParseLine_no_error[of u line] have "err = None" by simp
  with pl show ?thesis
    by (simp add: stream_line_def Let_def split: option.splits sum.splits)
qed

lemma event_kinds_simps:
  "''stream'' \<in> event_kinds" "''result'' \<in> event_kinds"
  "''error'' \<in> event_kinds" "''done'' \<in> event_kinds"
  by (simp_all add: event_kinds_def)

lemma stream_line_inv:
  assumes "job_inv c event_kinds p" "stream_line u line now p = Inr p'"
  shows "job_inv c event_kinds p'"
proof (cases "fst (ParseLine u line)")
  case None
  with assms show ?thesis by (simp add: stream_line_alt)
next
  case (Some e0)
  from ParseLine_kind[OF Some] have k: "Type (e0\<lparr>Timestamp := now\<rparr>) \<in> event_kinds"
    by (auto simp: event_kinds_def)
  from assms(2) Some obtain p1 where a: "AddEvent (e0\<lparr>Timestamp := now\<rparr>) p = Inr p1"
    and p': "p' = (if Type e0 = ''result'' then SetResultData (Data e0) now p1 else p1)"
    by (auto simp: stream_line_alt split: sum.splits)
  from AddEvent_inv[OF assms(1) k a] have "job_inv c event_kinds p1" .
  then show ?thesis unfolding p'
    by (auto intro: job_inv_cong simp: SetResultData_def)
qed

lemma stream_line_total:
  assumes "job_inv c K p" "0 < c"
  shows "\<exists>p'. stream_line u line now p = Inr p'"
proof (cases "fst (ParseLine u line)")
  case None
  then show ?thesis by (simp add: stream_line_alt)
next
  case (Some e0)
  from AddEvent_total[OF assms, of "e0\<lparr>Timestamp := now\<rparr>"] Some show ?thesis
    by (auto simp: stream_line_alt)
qed

lemma receive_inv:
  assumes "job_inv c K p"
  shows "job_inv c K (receive sid p)"
proof (cases "map_of (subscribers p) sid")
  case None
  with assms show ?thesis by (simp add: receive_def)
next
  case (Some ch)
  then have "(sid, ch) \<in> set (subscribers p)" by (rule map_of_SomeD)
  with assms have "\<forall>e \<in> set (buf ch). Type e \<in> K" by (auto simp: job_inv_def chans_in_def)
  moreover have "set (tl (buf ch)) \<subseteq> set (buf ch)" by (cases "buf ch") auto
  ultimately have "\<forall>e \<in> set (buf (ch\<lparr>buf := tl (buf ch)\<rparr>)). Type e \<in> K" by auto
  from chans_in_update[OF _ this, of "subscribers p" sid] assms Some show ?thesis
    by (simp add: receive_def job_inv_def)
qed

lemma Subscribe_inv:
  assumes "job_inv c K p"
  shows "job_inv c K (Subscribe sid p)"
proof -
  have "\<forall>e \<in> set (buf \<lparr>buf = [], cap = 100\<rparr>). Type e \<in> K" by simp
  from chans_in_update[OF _ this, of "subscribers p" sid] assms show ?thesis
    by (simp add: Subscribe_def job_inv_def)
qed

lemma Unsubscribe_inv:
  assumes "job_inv c K p"
  shows "job_inv c K (Unsubscribe sid p)"
proof (cases "map_of (subscribers p) sid")
  case None
  with assms show ?thesis by (simp add: Unsubscribe_def)
next
  case (Some ch)
  with chans_in_delete[of K "subscribers p" sid] assms show ?thesis
    by (simp add: Unsubscribe_def job_inv_def)
qed

lemma Close_inv:
  assumes "job_inv c K p"
  shows "job_inv c K (Close now p)"
  using assms by (simp add: Close_def Let_def job_inv_def chans_in_def)

lemma act_inv:
  assumes "job_inv c event_kinds p" "act u a p = Inr p'"
  shows "job_inv c event_kinds p'"
proof (cases a)
  case Act_Spawn
  with assms show ?thesis by (auto intro: job_inv_cong simp: Spawn_def SetStatus_def)
next
  case (Act_SetCmd x)
  with assms show ?thesis by (auto intro: job_inv_cong)
next
  case (Act_Line line now)
  with assms stream_line_inv[of c p u line now p'] show ?thesis by simp
next
  case (Act_SetStatus s)
  with assms show ?thesis by (auto intro: job_inv_cong simp: SetStatus_def)
next
  case (Act_SetResult r)
  with assms show ?thesis by (auto intro: job_inv_cong simp: SetResult_def)
next
  case (Act_sendErrorEvent msg now)
  with assms
    AddEvent_inv[of c event_kinds p "\<lparr>Type = ''error'', Data = ErrorJSON msg, Timestamp = now\<rparr>" p']
  show ?thesis
    by (simp add: sendErrorEvent_def event_kinds_simps)
next
  case (Act_sendDoneEvent now)
  with assms
    AddEvent_inv[of c event_kinds p
      "\<lparr>Type = ''done'', Data = DoneJSON (ID p) (Status p) (GetResult p), Timestamp = now\<rparr>" p']
  show ?thesis
    by (simp add: sendDoneEvent_def event_kinds_simps)
next
  case (Act_Close now)
  with assms Close_inv[of c event_kinds p now] show ?thesis by simp
next
  case (Act_Stop now)
  have "job_inv c event_kinds (Stop now p)"
    using assms(1) by (rule job_inv_cong) (simp_all add: Stop_fields)
  with assms Act_Stop show ?thesis by auto
next
  case (Act_Subscribe sid)
  with assms Subscribe_inv[of c event_kinds p sid] show ?thesis by simp
next
  case (Act_Unsubscribe sid)
  with assms Unsubscribe_inv[of c event_kinds p sid] show ?thesis by simp
next
  case (Act_Receive sid)
  with assms receive_inv[of c event_kinds p sid] show ?thesis by simp
qed

lemma act_total:
  assumes "job_inv c K p" "0 < c"
  shows "\<exists>p'. act u a p = Inr p'"
proof (cases a)
  case (Act_Line line now)
  with stream_line_total[OF assms, of u line now] show ?thesis by simp
next
  case (Act_sendErrorEvent msg now)
  with AddEvent_total[OF assms] show ?thesis by (simp add: sendErrorEvent_def)
next
  case (Act_sendDoneEvent now)
  with AddEvent_total[OF assms] show ?thesis by (simp add: sendDoneEvent_def)
qed simp_all

lemma acts_inv:
  assumes "job_inv c event_kinds p" "acts u as p = Inr p'"
  shows "job_inv c event_kinds p'"
  using assms
proof (induction as arbitrary: p)
  case Nil
  then show ?case by simp
next
  case (Cons a as)
  from Cons.prems(2) obtain p1 where a: "act u a p = Inr p1" and r: "acts u as p1 = Inr p'"
    by (auto split: sum.splits)
  from Cons.IH[OF act_inv[OF Cons.prems(1) a] r] show ?case .
qed

lemma acts_total:
  assumes "job_inv c event_kinds p" "0 < c"
  shows "\<exists>p'. acts u as p = Inr p'"
  using assms(1)
proof (induction as arbitrary: p)
  case Nil
  then show ?case by simp
next
  case (Cons a as)
  from act_total[OF Cons.prems assms(2), of u a] obtain p1 where a: "act u a p = Inr p1" by blast
  from Cons.IH[OF act_inv[OF Cons.prems a]] a show ?case by simp
qed

lemma NewProcess_inv:
  assumes "NewProcess maxlen pid connector prompt workDir bufferSize now = Inr p0"
  shows "job_inv (nat bufferSize) K p0"
proof (cases "1 \<le> bufferSize")
  case True
  from NewRingBuffer_holds[OF True NewProcess_fields(4)[OF assms], of zero_Event] obtain rb where
    n: "NewRingBuffer maxlen zero_Event bufferSize = Inr rb"
    and h: "rb_holds (nat bufferSize) rb []"
    by blast
  from assms n have e: "events p0 = rb" "subscribers p0 = []"
    by (auto simp: NewProcess_def)
  have "\<exists>ys. rb_holds (nat bufferSize) (events p0) ys \<and> (\<forall>e \<in> set ys. Type e \<in> K)"
    using h e by (intro exI[of _ "[]"]) simp
  with True e show ?thesis by (simp add: job_inv_def chans_in_def)
next
  case False
  with assms show ?thesis
    by (auto simp: NewProcess_def NewRingBuffer_def make_slice_def job_inv_def chans_in_def
        split: if_splits)
qed

lemma GetEvents_inv:
  assumes "job_inv c K p" "c \<le> maxlen"
  shows "\<exists>evs. GetEvents maxlen p = Inr evs \<and> (\<forall>e \<in> set evs. Type e \<in> K)"
proof (cases "0 < c")
  case True
  with assms obtain ys where "rb_holds c (events p) ys" "\<forall>e \<in> set ys. Type e \<in> K"
    by (auto simp: job_inv_def)
  with ToSlice_holds[of c "events p" ys maxlen zero_Event] assms(2) show ?thesis
    by (simp add: GetEvents_def)
next
  case False
  with assms show ?thesis by (simp add: job_inv_def GetEvents_def ToSlice_def)
qed

text \<open>
  Claim C5, as stated, fails: the parser of the Claude connector makes of the understood
  line \<^verbatim>\<open>{"type":"assistant"}\<close> an event of kind "stream", which is none of output,
  result, error, done.
\<close>

theorem ParseLine_makes_stream_counterexample:
  \<open>fst (ParseLine
         (\<lambda>l. if l = ''{"type":"assistant"}'' then Some [(''type'', JString ''assistant'')] else None)
         ''{"type":"assistant"}'')
     = Some \<lparr>Type = ''stream'', Data = Raw ''{"type":"assistant"}'', Timestamp = 0\<rparr> \<and>
   ''stream'' \<notin> {''output'', ''result'', ''error'', ''done''}\<close>
  by (simp add: ParseLine_def TrimSpace_def lead_space_def trail_space_def space_encodings_def)

text \<open>
  Claim C5, amended. Every event that the parser of the Claude connector makes of a line
  has kind "stream" or "result"; and for a job made by \<open>NewProcess\<close> and taken through
  any run of the steps of the runner and of the request handlers, every event of the
  buffer's snapshot and every event queued in a subscriber channel has its kind among
  "stream", "result", "error" and "done".
\<close>

theorem job_events_have_known_kinds:
  "(\<forall>e. fst (ParseLine u line) = Some e \<longrightarrow> Type e = ''stream'' \<or> Type e = ''result'') \<and>
   (NewProcess maxlen pid connector prompt workDir bufferSize now = Inr p0 \<and> acts u as p0 = Inr p \<longrightarrow>
      (\<exists>evs. GetEvents maxlen p = Inr evs \<and>
         (\<forall>e \<in> set evs. Type e \<in> {''stream'', ''result'', ''error'', ''done''})) \<and>
      (\<forall>sid ch. map_of (subscribers p) sid = Some ch \<longrightarrow>
         (\<forall>e \<in> set (buf ch). Type e \<in> {''stream'', ''result'', ''error'', ''done''})))"
proof -
  have a: "\<forall>e. fst (ParseLine u line) = Some e \<longrightarrow> Type e = ''stream'' \<or> Type e = ''result''"
    using ParseLine_kind[of u line] by blast
  have b: "(\<exists>evs. GetEvents maxlen p = Inr evs \<and>
         (\<forall>e \<in> set evs. Type e \<in> {''stream'', ''result'', ''error'', ''done''})) \<and>
      (\<forall>sid ch. map_of (subscribers p) sid = Some ch \<longrightarrow>
         (\<forall>e \<in> set (buf ch). Type e \<in> {''stream'', ''result'', ''error'', ''done''}))"
    if h: "NewProcess maxlen pid connector prompt workDir bufferSize now = Inr p0 \<and> acts u as p0 = Inr p"
  proof -
    from h have n: "NewProcess maxlen pid connector prompt workDir bufferSize now = Inr p0"
      and r: "acts u as p0 = Inr p" by simp_all
    from acts_inv[OF NewProcess_inv[OF n, of event_kinds] r]
    have inv: "job_inv (nat bufferSize) event_kinds p" .
    have le: "nat bufferSize \<le> maxlen" using NewProcess_fields(4)[OF n] by simp
    from GetEvents_inv[OF inv le]
    have g: "\<exists>evs. GetEvents maxlen p = Inr evs \<and>
         (\<forall>e \<in> set evs. Type e \<in> {''stream'', ''result'', ''error'', ''done''})"
      by (simp add: event_kinds_def)
    have c: "\<forall>e \<in> set (buf ch). Type e \<in> {''stream'', ''result'', ''error'', ''done''}"
      if "map_of (subscribers p) sid = Some ch" for sid ch
    proof -
      from that have "(sid, ch) \<in> set (subscribers p)" by (rule map_of_SomeD)
      with inv show ?thesis by (auto simp: job_inv_def chans_in_def event_kinds_def)
    qed
    from g c show ?thesis by blast
  qed
  from a b show ?thesis by blast
qed

text \<open>A job that is spawned, subscribed to, and sent a result line and the done event.\<close>

theorem job_events_have_known_kinds_witness:
  \<open>(case NewProcess 1000 ''a'' ''claude'' ''hi'' [] 2 0 of
      Inl pn \<Rightarrow> False
    | Inr p0 \<Rightarrow>
        (case acts (\<lambda>l. if l = ''{"type":"result"}'' then Some [(''type'', JString ''result'')] else None)
                [Act_Spawn, Act_Subscribe ''s1'', Act_Line ''{"type":"result"}'' 3,
                 Act_sendDoneEvent 4] p0 of
           Inl pn \<Rightarrow> False
         | Inr p \<Rightarrow>
             (case GetEvents 1000 p of
                Inl pn \<Rightarrow> False
              | Inr evs \<Rightarrow> Type ` set evs \<subseteq> {''stream'', ''result'', ''error'', ''done''})))\<close>
proof -
  let ?u = \<open>\<lambda>l. if l = ''{"type":"result"}'' then Some [(''type'', JString ''result'')] else None\<close>
  let ?as = \<open>[Act_Spawn, Act_Subscribe ''s1'', Act_Line ''{"type":"result"}'' 3, Act_sendDoneEvent 4]\<close>
  obtain p0 where np: "NewProcess 1000 ''a'' ''claude'' ''hi'' [] 2 0 = Inr p0"
    by (simp add: NewProcess_def NewRingBuffer_def make_slice_def)
  from acts_total[OF NewProcess_inv[OF np, of event_kinds], of ?u ?as]
  obtain p where ap: "acts ?u ?as p0 = Inr p" by auto
  from job_events_have_known_kinds
    [where u = ?u and line = "[]" and maxlen = 1000 and pid = "''a''" and connector = "''claude''"
       and prompt = "''hi''" and workDir = "[]" and bufferSize = 2 and now = 0 and ?p0.0 = p0
       and as = ?as and p = p] np ap
  obtain evs where g: "GetEvents 1000 p = Inr evs"
    and k: "\<forall>e \<in> set evs. Type e \<in> {''stream'', ''result'', ''error'', ''done''}"
    by blast
  from k have "Type ` set evs \<subseteq> {''stream'', ''result'', ''error'', ''done''}" by blast
  then show ?thesis unfolding np ap g sum.case .
qed

text \<open>
  Claim C7, as stated, fails for a job created with buffer size 0: \<open>AddEvent\<close> panics
  in the push, and no event is pushed or delivered.
\<close>

theorem AddEvent_zero_capacity_counterexample:
  "(case NewProcess 1000 ''a'' ''claude'' ''hi'' [] 0 0 of
      Inl pn \<Rightarrow> False
    | Inr p \<Rightarrow> AddEvent \<lparr>Type = ''stream'', Data = Raw ''{}'', Timestamp = 1\<rparr> p = Inl IndexOutOfRange)"
  by (simp add: NewProcess_def NewRingBuffer_def make_slice_def AddEvent_def Push_def)

text \<open>
  Claim C7, amended. For a job created with a buffer size \<open>\<ge> 1\<close>, after any run of
  steps: \<open>AddEvent\<close> returns, the event is pushed to the ring buffer (the snapshot
  becomes the last items of the old snapshot followed by the event), the subscribers
  are the same, and each subscriber's channel gets the event at its end if and only if
  it has room (fewer events queued than its capacity); a full channel is left as it is,
  whatever the other channels are.
\<close>

theorem AddEvent_fans_out:
  assumes "1 \<le> bufferSize"
    and "NewProcess maxlen pid connector prompt workDir bufferSize now = Inr p0"
    and "acts u as p0 = Inr p"
  shows "\<exists>p' evs. AddEvent event p = Inr p' \<and> GetEvents maxlen p = Inr evs \<and>
           GetEvents maxlen p' = Inr (last_n (nat bufferSize) (evs @ [event])) \<and>
           map fst (subscribers p') = map fst (subscribers p) \<and>
           (\<forall>sid ch. map_of (subscribers p) sid = Some ch \<longrightarrow>
              map_of (subscribers p') sid =
                Some (if length (buf ch) < cap ch then ch\<lparr>buf := buf ch @ [event]\<rparr> else ch)) \<and>
           (\<forall>sid. map_of (subscribers p) sid = None \<longrightarrow> map_of (subscribers p') sid = None)"
proof -
  let ?c = "nat bufferSize"
  have pos: "0 < ?c" using assms(1) by simp
  have le: "?c \<le> maxlen" using NewProcess_fields(4)[OF assms(2)] by simp
  from acts_inv[OF NewProcess_inv[OF assms(2), of event_kinds] assms(3)]
  have inv: "job_inv ?c event_kinds p" .
  with pos obtain ys where h: "rb_holds ?c (events p) ys" by (auto simp: job_inv_def)
  from AddEvent_holds[OF h pos, of event] obtain rb where
    a: "AddEvent event p = Inr (p\<lparr>events := rb, subscribers := notify event (subscribers p)\<rparr>)"
    and h': "rb_holds ?c rb (last_n ?c (ys @ [event]))" by blast
  let ?p' = "p\<lparr>events := rb, subscribers := notify event (subscribers p)\<rparr>"
  have g: "GetEvents maxlen p = Inr ys"
    using ToSlice_holds[OF h le, of zero_Event] by (simp add: GetEvents_def)
  have g': "GetEvents maxlen ?p' = Inr (last_n ?c (ys @ [event]))"
    using ToSlice_holds[OF h' le, of zero_Event] by (simp add: GetEvents_def)
  have k: "map fst (subscribers ?p') = map fst (subscribers p)"
    by (simp add: notify_keys)
  have s: "\<forall>sid ch. map_of (subscribers p) sid = Some ch \<longrightarrow>
              map_of (subscribers ?p') sid =
                Some (if length (buf ch) < cap ch then ch\<lparr>buf := buf ch @ [event]\<rparr> else ch)"
    by (simp add: map_of_notify send_nb_def)
  have n: "\<forall>sid. map_of (subscribers p) sid = None \<longrightarrow> map_of (subscribers ?p') sid = None"
    by (simp add: map_of_notify)
  have "AddEvent event p = Inr ?p' \<and> GetEvents maxlen p = Inr ys \<and>
           GetEvents maxlen ?p' = Inr (last_n ?c (ys @ [event])) \<and>
           map fst (subscribers ?p') = map fst (subscribers p) \<and>
           (\<forall>sid ch. map_of (subscribers p) sid = Some ch \<longrightarrow>
              map_of (subscribers ?p') sid =
                Some (if length (buf ch) < cap ch then ch\<lparr>buf := buf ch @ [event]\<rparr> else ch)) \<and>
           (\<forall>sid. map_of (subscribers p) sid = None \<longrightarrow> map_of (subscribers ?p') sid = None)"
    using a g g' k s n by (intro conjI)
  then show ?thesis by (intro exI)
qed

text \<open>A job of buffer size 2 with one subscriber.\<close>

theorem AddEvent_fans_out_witness:
  "(case NewProcess 1000 ''a'' ''claude'' ''hi'' [] 2 0 of
      Inl pn \<Rightarrow> False
    | Inr p0 \<Rightarrow>
        (\<exists>p'. AddEvent \<lparr>Type = ''stream'', Data = Raw ''{}'', Timestamp = 1\<rparr> (Subscribe ''s1'' p0) = Inr p' \<and>
           GetEvents 1000 p' = Inr [\<lparr>Type = ''stream'', Data = Raw ''{}'', Timestamp = 1\<rparr>] \<and>
           map_of (subscribers p') ''s1'' =
             Some \<lparr>buf = [\<lparr>Type = ''stream'', Data = Raw ''{}'', Timestamp = 1\<rparr>], cap = 100\<rparr> \<and>
           map_of (subscribers p') ''s2'' = None))"
proof -
  let ?e = "\<lparr>Type = ''stream'', Data = Raw ''{}'', Timestamp = 1\<rparr>"
  obtain p0 where np: "NewProcess 1000 ''a'' ''claude'' ''hi'' [] 2 0 = Inr p0"
    and ev: "count (events p0) = 0" and su: "subscribers p0 = []"
    by (simp add: NewProcess_def NewRingBuffer_def make_slice_def)
  have h1: "(1::int) \<le> 2" by simp
  have h3: "acts u [Act_Subscribe ''s1''] p0 = Inr (Subscribe ''s1'' p0)" for u by simp
  have g0: "GetEvents 1000 (Subscribe ''s1'' p0) = Inr []"
    using ev by (simp add: GetEvents_def ToSlice_def Subscribe_def)
  have s1: "map_of (subscribers (Subscribe ''s1'' p0)) ''s1'' = Some \<lparr>buf = [], cap = 100\<rparr>"
    using su by (simp add: Subscribe_def)
  have s2: "map_of (subscribers (Subscribe ''s1'' p0)) ''s2'' = None"
    using su by (simp add: Subscribe_def)
  from AddEvent_fans_out [OF h1 np h3 [of "\<lambda>l. None"], of ?e]
  obtain p' evs where a: "AddEvent ?e (Subscribe ''s1'' p0) = Inr p'"
    and b: "GetEvents 1000 (Subscribe ''s1'' p0) = Inr evs"
    and c: "GetEvents 1000 p' = Inr (last_n (nat 2) (evs @ [?e]))"
    and d: "\<forall>sid ch. map_of (subscribers (Subscribe ''s1'' p0)) sid = Some ch \<longrightarrow>
              map_of (subscribers p') sid =
                Some (if length (buf ch) < cap ch then ch\<lparr>buf := buf ch @ [?e]\<rparr> else ch)"
    and e: "\<forall>sid. map_of (subscribers (Subscribe ''s1'' p0)) sid = None \<longrightarrow>
              map_of (subscribers p') sid = None"
    by blast
  from b g0 have "evs = []" by simp
  with c have c': "GetEvents 1000 p' = Inr [?e]" by (simp add: last_n_def)
  from d s1 have d': "map_of (subscribers p') ''s1'' = Some \<lparr>buf = [?e], cap = 100\<rparr>" by simp
  from e s2 have e': "map_of (subscribers p') ''s2'' = None" by simp
  from a c' d' e' show ?thesis unfolding np sum.case by blast
qed

section \<open>Proofs: the result cache\<close>

lemma AddEvent_fields:
  assumes "AddEvent e p = Inr p'"
  shows "Status p' = Status p" "CompletedAt p' = CompletedAt p" "result p' = result p"
    "resultData p' = resultData p" "resultExpiry p' = resultExpiry p" "ID p' = ID p"
  using assms by (auto simp: AddEvent_def split: sum.splits)

lemma stream_line_cache:
  assumes "stream_line u line s p = Inr p'"
  shows "(resultData p', resultExpiry p') =
           (case fst (ParseLine u line) of
              None \<Rightarrow> (resultData p, resultExpiry p)
            | Some e \<Rightarrow> if Type e = ''result'' then (Data e, Some (s + 10 * Minute))
                        else (resultData p, resultExpiry p))"
proof (cases "fst (ParseLine u line)")
  case None
  with assms show ?thesis by (simp add: stream_line_alt)
next
  case (Some e0)
  from assms Some obtain p1 where a: "AddEvent (e0\<lparr>Timestamp := s\<rparr>) p = Inr p1"
    and p': "p' = (if Type e0 = ''result'' then SetResultData (Data e0) s p1 else p1)"
    by (auto simp: stream_line_alt split: sum.splits)
  from AddEvent_fields(4,5)[OF a] Some show ?thesis
    by (simp add: p' SetResultData_def)
qed

lemma act_cache:
  assumes "act u a p = Inr p'" "no_result_line u [a]"
  shows "resultData p' = resultData p \<and> resultExpiry p' = resultExpiry p"
proof (cases a)
  case (Act_Line line now)
  with assms stream_line_cache[of u line now p p'] show ?thesis
    by (auto simp: no_result_line_def split: option.splits if_splits)
next
  case (Act_sendErrorEvent msg now)
  with assms AddEvent_fields(4,5)[of _ p p'] show ?thesis by (simp add: sendErrorEvent_def)
next
  case (Act_sendDoneEvent now)
  with assms AddEvent_fields(4,5)[of _ p p'] show ?thesis by (simp add: sendDoneEvent_def)
next
  case (Act_Stop now)
  with assms show ?thesis by (auto simp: Stop_fields)
next
  case (Act_Unsubscribe sid)
  with assms show ?thesis by (auto simp: Unsubscribe_def split: option.splits)
next
  case (Act_Receive sid)
  with assms show ?thesis by (auto simp: receive_def split: option.splits)
next
  case (Act_Close now)
  with assms show ?thesis by (auto simp: Close_def Let_def)
qed (use assms in \<open>auto simp: Spawn_def SetStatus_def SetResult_def Subscribe_def\<close>)

lemma acts_cache:
  assumes "acts u as p = Inr p'" "no_result_line u as"
  shows "resultData p' = resultData p \<and> resultExpiry p' = resultExpiry p"
  using assms
proof (induction as arbitrary: p)
  case Nil
  then show ?case by simp
next
  case (Cons a as)
  from Cons.prems(1) obtain p1 where a: "act u a p = Inr p1" and r: "acts u as p1 = Inr p'"
    by (auto split: sum.splits)
  from Cons.prems(2) have n1: "no_result_line u [a]" and n2: "no_result_line u as"
    by (simp_all add: no_result_line_def)
  from act_cache[OF a n1] Cons.IH[OF r n2] show ?case by simp
qed

text \<open>
  What the code does with the cache. A read at time \<open>t\<close> of the payload cached at time
  \<open>s\<close> returns that payload when \<open>t\<close> is not after \<open>s + 10\<close> minutes, and nothing
  (\<^verbatim>\<open>nil\<close>) when it is; the read is a function of the job and the clock, there is no
  timer. For a job made by \<open>NewProcess\<close>, as long as no line has been parsed into a
  result event every read returns nothing. When \<open>streamOutput\<close> handles at time \<open>s\<close> a
  line parsed into a result event, the reads after that and before the next such line
  are those of the payload of that event cached at \<open>s\<close>.
\<close>

lemma result_cache_reads:
  "GetResultData t (SetResultData d s p) = (if s + 10 * Minute < t then NilData else d) \<and>
   (NewProcess maxlen pid connector prompt workDir bufferSize now = Inr p0 \<and> acts u as p0 = Inr p1 \<and>
      no_result_line u as \<longrightarrow> GetResultData t p1 = NilData) \<and>
   (stream_line u line s p = Inr p' \<and> fst (ParseLine u line) = Some e \<and> Type e = ''result'' \<and>
      acts u bs p' = Inr p'' \<and> no_result_line u bs \<longrightarrow>
      GetResultData t p'' = GetResultData t (SetResultData (Data e) s p))"
proof -
  have a: "GetResultData t (SetResultData d s p) = (if s + 10 * Minute < t then NilData else d)"
    by (simp add: GetResultData_def SetResultData_def)
  have b: "GetResultData t p1 = NilData"
    if h: "NewProcess maxlen pid connector prompt workDir bufferSize now = Inr p0 \<and> acts u as p0 = Inr p1 \<and>
      no_result_line u as"
  proof -
    from h have "resultExpiry p0 = None"
      by (auto simp: NewProcess_def split: sum.splits)
    with acts_cache[of u as p0 p1] h show ?thesis by (simp add: GetResultData_def)
  qed
  have c: "GetResultData t p'' = GetResultData t (SetResultData (Data e) s p)"
    if h: "stream_line u line s p = Inr p' \<and> fst (ParseLine u line) = Some e \<and> Type e = ''result'' \<and>
      acts u bs p' = Inr p'' \<and> no_result_line u bs"
  proof -
    from h stream_line_cache[of u line s p p']
    have "resultData p' = Data e" "resultExpiry p' = Some (s + 10 * Minute)" by simp_all
    with acts_cache[of u bs p' p''] h show ?thesis
      by (auto simp: GetResultData_def SetResultData_def)
  qed
  from a b c show ?thesis by blast
qed

text \<open>
  Claim C4 does not hold of the code at the instant of expiry. A payload cached at
  time \<open>s\<close> expires at \<open>s + 10\<close> minutes, and a read at or after the expiry is to return
  nothing. \<open>GetResultData\<close> tests \<^verbatim>\<open>time.Now().After(expiry)\<close>, so at \<open>s + 10\<close> minutes
  exactly it still returns the payload, and returns nothing one nanosecond later. At
  that same instant \<open>HasValidResultData\<close> of the same file, which tests
  \<^verbatim>\<open>time.Now().Before(expiry)\<close>, says that there is no valid payload: the two reads of
  the one cache disagree, and the claim is what \<open>HasValidResultData\<close> does.
\<close>

theorem GetResultData_at_expiry:
  "GetResultData (s + 10 * Minute) (SetResultData d s p) = d \<and>
   \<not> HasValidResultData (s + 10 * Minute) (SetResultData d s p) \<and>
   GetResultData (s + 10 * Minute + 1) (SetResultData d s p) = NilData"
  by (simp add: GetResultData_def SetResultData_def HasValidResultData_def)

section \<open>Proofs: the functions of the runner as runs of steps\<close>

text \<open>
  \<open>streamOutput\<close>, \<open>handleError\<close>, the start and the end of \<^verbatim>\<open>run\<close> are runs of the
  steps of \<open>act\<close>, so what holds after every run of steps holds after them.
\<close>

lemma streamOutput_acts:
  "streamOutput u lines p = acts u (map (\<lambda>(line, now). Act_Line line now) lines) p"
  by (induction lines arbitrary: p) (auto split: sum.splits)

lemma handleError_acts:
  "handleError err now p =
     acts u [Act_SetStatus StatusFailed,
             Act_SetResult (Some \<lparr>ExitCode = 1, Output = None, Error = err\<rparr>),
             Act_sendErrorEvent err now, Act_sendDoneEvent now, Act_Close now] p"
  by (simp add: handleError_def Let_def split: sum.splits)

lemma run_finish_acts:
  "run_finish sc now p =
     acts u
       ((case sc of
           ctx_Done \<Rightarrow>
             [Act_SetCmd (case cmd p of Some (Some k) \<Rightarrow> Some (Some True) | _ \<Rightarrow> cmd p),
              Act_SetStatus StatusStopped,
              Act_sendErrorEvent ''Process stopped or timed out'' now]
         | cmdDone None \<Rightarrow>
             [Act_SetStatus StatusCompleted,
              Act_SetResult (Some \<lparr>ExitCode = 0, Output = None, Error = []\<rparr>)]
         | cmdDone (Some cmdErr) \<Rightarrow>
             [Act_SetStatus StatusFailed,
              Act_SetResult (Some \<lparr>ExitCode = getExitCode cmdErr, Output = None,
                                    Error = error_message cmdErr\<rparr>),
              Act_sendErrorEvent (error_message cmdErr) now])
        @ [Act_sendDoneEvent now, Act_Close now]) p"
proof (cases sc)
  case ctx_Done
  have "(case cmd p of Some (Some k) \<Rightarrow> p\<lparr>cmd := Some (Some True)\<rparr> | _ \<Rightarrow> p) =
        p\<lparr>cmd := (case cmd p of Some (Some k) \<Rightarrow> Some (Some True) | _ \<Rightarrow> cmd p)\<rparr>"
    by (simp split: option.splits)
  with ctx_Done show ?thesis
    by (simp add: run_finish_def run_select_def Let_def split: sum.splits)
next
  case (cmdDone x)
  then show ?thesis
    by (cases x) (simp_all add: run_finish_def run_select_def Let_def split: sum.splits)
qed

lemma run_begin_acts:
  "run_begin l now p =
     (case l of
        PipeError e \<Rightarrow>
          map_sum (\<lambda>pn. pn) Inl
            (acts u [Act_SetCmd (Some None), Act_SetStatus StatusFailed,
               Act_SetResult (Some \<lparr>ExitCode = 1, Output = None,
                                     Error = ''failed to create stdout pipe: '' @ e\<rparr>),
               Act_sendErrorEvent (''failed to create stdout pipe: '' @ e) now,
               Act_sendDoneEvent now, Act_Close now] p)
      | StartError e \<Rightarrow>
          map_sum (\<lambda>pn. pn) Inl
            (acts u [Act_SetCmd (Some None), Act_SetStatus StatusFailed,
               Act_SetResult (Some \<lparr>ExitCode = 1, Output = None,
                                     Error = ''failed to start command: '' @ e\<rparr>),
               Act_sendErrorEvent (''failed to start command: '' @ e) now,
               Act_sendDoneEvent now, Act_Close now] p)
      | Launched \<Rightarrow>
          map_sum (\<lambda>pn. pn) Inr
            (acts u [Act_SetCmd (Some None), Act_SetCmd (Some (Some False))] p))"
  by (cases l) (simp_all add: run_begin_def handleError_def Let_def split: sum.splits)


section \<open>Proofs: the end of a run\<close>

lemma SetStatus_inv:
  assumes "job_inv c K p"
  shows "job_inv c K (SetStatus s p)" "job_inv c K (SetResult r p)"
  using assms by (auto intro: job_inv_cong simp: SetStatus_def SetResult_def)

lemma AddEvent_any:
  assumes "job_inv c UNIV p" "0 < c"
  shows "\<exists>p'. AddEvent e p = Inr p' \<and> job_inv c UNIV p' \<and> Status p' = Status p \<and>
              CompletedAt p' = CompletedAt p"
proof -
  from AddEvent_total[OF assms, of e] obtain p' where a: "AddEvent e p = Inr p'" by blast
  from AddEvent_inv[OF assms(1) _ a] AddEvent_fields(1,2)[OF a] a show ?thesis by simp
qed

lemma run_select_status:
  assumes "job_inv c UNIV p" "0 < c"
  shows "\<exists>p1. run_select sc now p = Inr p1 \<and> job_inv c UNIV p1 \<and>
           CompletedAt p1 = CompletedAt p \<and>
           Status p1 = (case sc of ctx_Done \<Rightarrow> StatusStopped
                        | cmdDone None \<Rightarrow> StatusCompleted
                        | cmdDone (Some cmdErr) \<Rightarrow> StatusFailed)"
proof (cases sc)
  case ctx_Done
  let ?p1 = "case cmd p of Some (Some k) \<Rightarrow> p\<lparr>cmd := Some (Some True)\<rparr> | _ \<Rightarrow> p"
  have e: "events ?p1 = events p" "subscribers ?p1 = subscribers p" "CompletedAt ?p1 = CompletedAt p"
    by (simp_all split: option.splits)
  have "job_inv c UNIV ?p1" using assms(1) e(1,2) by (rule job_inv_cong)
  then have i: "job_inv c UNIV (SetStatus StatusStopped ?p1)" by (rule SetStatus_inv)
  from AddEvent_any[OF i assms(2),
      of "\<lparr>Type = ''error'', Data = ErrorJSON ''Process stopped or timed out'', Timestamp = now\<rparr>"]
  obtain p1 where "sendErrorEvent ''Process stopped or timed out'' now (SetStatus StatusStopped ?p1) = Inr p1"
    "job_inv c UNIV p1" "Status p1 = Status (SetStatus StatusStopped ?p1)"
    "CompletedAt p1 = CompletedAt (SetStatus StatusStopped ?p1)"
    by (auto simp: sendErrorEvent_def)
  with e(3) ctx_Done show ?thesis
    by (simp add: run_select_def Let_def SetStatus_def)
next
  case (cmdDone x)
  show ?thesis
  proof (cases x)
    case None
    with cmdDone SetStatus_inv[OF SetStatus_inv(1)[OF assms(1)]] show ?thesis
      by (simp add: run_select_def SetStatus_def SetResult_def)
  next
    case (Some cmdErr)
    let ?p2 = "SetResult (Some \<lparr>ExitCode = getExitCode cmdErr, Output = None,
                                    Error = error_message cmdErr\<rparr>) (SetStatus StatusFailed p)"
    have i: "job_inv c UNIV ?p2" using SetStatus_inv[OF SetStatus_inv(1)[OF assms(1)]] by simp
    from AddEvent_any[OF i assms(2),
        of "\<lparr>Type = ''error'', Data = ErrorJSON (error_message cmdErr), Timestamp = now\<rparr>"]
    obtain p1 where "sendErrorEvent (error_message cmdErr) now ?p2 = Inr p1"
      "job_inv c UNIV p1" "Status p1 = Status ?p2" "CompletedAt p1 = CompletedAt ?p2"
      by (auto simp: sendErrorEvent_def)
    with cmdDone Some show ?thesis
      by (simp add: run_select_def Let_def SetStatus_def SetResult_def)
  qed
qed

lemma run_finish_status:
  assumes "job_inv c UNIV p" "0 < c"
  shows "\<exists>p2. run_finish sc now p = Inr p2 \<and>
           Status p2 = (case sc of ctx_Done \<Rightarrow> StatusStopped
                        | cmdDone None \<Rightarrow> StatusCompleted
                        | cmdDone (Some cmdErr) \<Rightarrow> StatusFailed) \<and>
           CompletedAt p2 = (case CompletedAt p of None \<Rightarrow> Some now | Some t \<Rightarrow> Some t)"
proof -
  from run_select_status[OF assms, of sc now] obtain p1 where
    a: "run_select sc now p = Inr p1" and i: "job_inv c UNIV p1"
    and ca: "CompletedAt p1 = CompletedAt p"
    and st: "Status p1 = (case sc of ctx_Done \<Rightarrow> StatusStopped
                        | cmdDone None \<Rightarrow> StatusCompleted
                        | cmdDone (Some cmdErr) \<Rightarrow> StatusFailed)" by blast
  from AddEvent_any[OF i assms(2),
      of "\<lparr>Type = ''done'', Data = DoneJSON (ID p1) (Status p1) (GetResult p1), Timestamp = now\<rparr>"]
  obtain p2 where
    b: "sendDoneEvent now p1 = Inr p2" and "Status p2 = Status p1" "CompletedAt p2 = CompletedAt p1"
    by (auto simp: sendDoneEvent_def)
  with a st ca show ?thesis
    by (auto simp: run_finish_def Close_def Let_def split: option.splits)
qed

lemma Stop_Close_keep_terminal:
  assumes "Status p = StatusCompleted \<or> Status p = StatusFailed \<or> Status p = StatusStopped"
  shows "Status (Stop now p) = Status p \<and> CompletedAt (Stop now p) = CompletedAt p \<and>
         Status (Close now p) = Status p \<and>
         (CompletedAt p \<noteq> None \<longrightarrow> CompletedAt (Close now p) = CompletedAt p)"
  using assms by (auto simp: Stop_fields is_active_def Status_defs Close_def Let_def)

text \<open>
  Claim C2 against the code. A running job is stopped at time 5: its status is stopped
  and \<open>CompletedAt\<close> is 5. The \<^verbatim>\<open>select\<close> of \<^verbatim>\<open>run\<close> then takes the case of the
  finished command: with the error of the killed process the status becomes failed,
  with no error it becomes completed; \<open>SetStatus\<close> has no test of the status, unlike
  \<open>Stop\<close>. And \<open>Spawn\<close> on a job stopped while pending makes it running again, after
  which a second \<open>Stop\<close> assigns \<open>CompletedAt\<close> a second time.
\<close>

theorem run_overwrites_terminal_status:
  "(case NewProcess 1000 ''a'' ''claude'' ''hi'' [] 2 0 of
      Inl pn \<Rightarrow> False
    | Inr p0 \<Rightarrow>
        (case acts (\<lambda>l. None) [Act_Spawn, Act_SetCmd (Some (Some False)), Act_Stop 5] p0 of
           Inl pn \<Rightarrow> False
         | Inr p1 \<Rightarrow>
             Status p1 = StatusStopped \<and> CompletedAt p1 = Some 5 \<and>
             (case run_finish (cmdDone (Some (ExitError (- 1) ''signal: killed''))) 6 p1 of
                Inl pn \<Rightarrow> False
              | Inr p2 \<Rightarrow> Status p2 = StatusFailed \<and> CompletedAt p2 = Some 5) \<and>
             (case run_finish (cmdDone None) 6 p1 of
                Inl pn \<Rightarrow> False
              | Inr p2 \<Rightarrow> Status p2 = StatusCompleted \<and> CompletedAt p2 = Some 5)) \<and>
        Status (Stop 1 p0) = StatusStopped \<and> CompletedAt (Stop 1 p0) = Some 1 \<and>
        Status (Spawn (Stop 1 p0)) = StatusRunning \<and>
        CompletedAt (Stop 9 (Spawn (Stop 1 p0))) = Some 9)"
proof -
  obtain p0 where np: "NewProcess 1000 ''a'' ''claude'' ''hi'' [] 2 0 = Inr p0"
    and st: "Status p0 = StatusPending"
    by (simp add: NewProcess_def NewRingBuffer_def make_slice_def)
  let ?p1 = "Stop 5 ((Spawn p0)\<lparr>cmd := Some (Some False)\<rparr>)"
  have a: "acts (\<lambda>l. None) [Act_Spawn, Act_SetCmd (Some (Some False)), Act_Stop 5] p0 = Inr ?p1"
    by simp
  have s1: "Status ?p1 = StatusStopped" "CompletedAt ?p1 = Some 5"
    by (simp_all add: Stop_fields is_active_def Spawn_def SetStatus_def)
  have i0: "job_inv (nat 2) UNIV p0" using np by (rule NewProcess_inv)
  have i1: "job_inv (nat 2) UNIV ?p1"
    using i0 by (rule job_inv_cong) (simp_all add: Stop_fields Spawn_def SetStatus_def)
  have pos: "0 < nat 2" by simp
  from run_finish_status[OF i1 pos, of "cmdDone (Some (ExitError (- 1) ''signal: killed''))" 6]
  obtain p2 where f: "run_finish (cmdDone (Some (ExitError (- 1) ''signal: killed''))) 6 ?p1 = Inr p2"
    and f': "Status p2 = StatusFailed" "CompletedAt p2 = Some 5"
    using s1 by auto
  from run_finish_status[OF i1 pos, of "cmdDone None" 6]
  obtain p3 where g: "run_finish (cmdDone None) 6 ?p1 = Inr p3"
    and g': "Status p3 = StatusCompleted" "CompletedAt p3 = Some 5"
    using s1 by auto
  have h: "Status (Stop 1 p0) = StatusStopped" "CompletedAt (Stop 1 p0) = Some 1"
    "Status (Spawn (Stop 1 p0)) = StatusRunning"
    "CompletedAt (Stop 9 (Spawn (Stop 1 p0))) = Some 9"
    using st by (simp_all add: Stop_fields is_active_def Spawn_def SetStatus_def)
  from s1 f' g' h show ?thesis unfolding np a f g sum.case by (intro conjI)
qed

end
